theory Spec2Isabelle
  imports Complex_Main "HOL-Library.Log_Nat"
begin

section \<open>The search worker of dusa (src/worker.ts)\<close>

text \<open>
  The worker drives the randomised depth-first search of the datalog engine in bounded
  slices and answers the commands of the application. The engine
  (\<^verbatim>\<open>./datalog/engine\<close>, \<^verbatim>\<open>./datalog/data\<close>) is imported by the worker; its
  types are type variables here and its functions are the fields of an environment record:
  \<^item> \<open>'cp\<close> is \<^verbatim>\<open>CompiledProgram\<close>, \<open>'p\<close> is \<^verbatim>\<open>Program\<close>, \<open>'db\<close> is
    \<^verbatim>\<open>Database\<close>, \<open>'n\<close> is \<^verbatim>\<open>ChoiceTreeNode\<close>, \<open>'d\<close> is \<^verbatim>\<open>Data\<close>.
  The counters are integers. The clock readings, the random numbers and the quota are the
  reals that JavaScript's doubles denote; the worker's two sums and its product round to
  the nearest double, as \<^verbatim>\<open>+\<close> and \<^verbatim>\<open>*\<close> do on JavaScript numbers.
\<close>

subsection \<open>Data\<close>

record WorkerStats =
  cycles :: int
  deadEnds :: int

text \<open>\<^verbatim>\<open>{ type: 'Fact', name, args, value }\<close>\<close>

record 'd Fact =
  name :: string
  args :: "'d list"
  val :: 'd

text \<open>
  The worker builds one kind of tree itself, \<^verbatim>\<open>{ type: 'leaf', db }\<close>; every other tree
  comes back from the engine. A path entry is \<^verbatim>\<open>[ChoiceTreeNode, Data | 'defer']\<close>, with
  \<open>None\<close> for \<^verbatim>\<open>'defer'\<close>.
\<close>

datatype ('db, 'n) ChoiceTree = leaf 'db | choice 'n

type_synonym ('n, 'd) Path = "('n \<times> 'd option) list"

datatype WorkerToApp =
    W_hello WorkerStats
  | W_saturated WorkerStats "string list" bool
  | W_paused WorkerStats
  | W_running WorkerStats
  | W_done WorkerStats
  | W_error WorkerStats "string option"
  | W_reset WorkerStats

datatype 'cp AppToWorker =
    A_status
  | A_stop
  | A_load 'cp
  | A_start
  | A_reset

datatype State = S_error | S_paused | S_done | S_saturated | S_running

text \<open>What \<^verbatim>\<open>stepTreeRandomDFS\<close> returns: \<^verbatim>\<open>result.tree\<close>, \<^verbatim>\<open>result.path\<close>,
  \<^verbatim>\<open>result.solution\<close>.\<close>

record ('db, 'n, 'd) StepResult =
  r_tree :: "('db, 'n) ChoiceTree option"
  r_path :: "('n, 'd) Path"
  r_solution :: "'db option"

text \<open>
  The environment of the worker. A thrown value is the string \<^verbatim>\<open>`${e}`\<close> the worker
  makes of it, on the left of a sum.
  \<^item> \<open>stepTreeRandomDFS\<close> takes the program as the worker passes it (\<^verbatim>\<open>program!\<close> is
    erased at run time, so it may be null), the tree, the path, the counters and the number
    of earlier calls, which stands for the random choices and the hidden state of the
    engine. It mutates the counters in place, also when it throws, so it returns them.
  \<^item> \<open>facts_of\<close> is \<^verbatim>\<open>Object.entries(solution.facts)\<close>.
  \<^item> \<open>program_of\<close> is the field \<^verbatim>\<open>.program\<close> of a compiled program.
  \<^item> \<open>Math_random k\<close> and \<open>performance_now k\<close> are the values of the \<open>k\<close>-th call of
    \<^verbatim>\<open>Math.random()\<close> and \<^verbatim>\<open>performance.now()\<close>.
\<close>

record ('cp, 'p, 'db, 'n, 'd) Env =
  makeInitialDb :: "'cp \<Rightarrow> string + 'db"
  stepTreeRandomDFS :: "'p option \<Rightarrow> ('db, 'n) ChoiceTree \<Rightarrow> ('n, 'd) Path \<Rightarrow> WorkerStats \<Rightarrow> nat
     \<Rightarrow> (string + ('db, 'n, 'd) StepResult) \<times> WorkerStats"
  factToString :: "'d Fact \<Rightarrow> string"
  pathToString :: "('db, 'n) ChoiceTree \<Rightarrow> ('n, 'd) Path \<Rightarrow> string + string"
  program_of :: "'cp \<Rightarrow> 'p"
  facts_of :: "'db \<Rightarrow> (string \<times> ('d list \<times> 'd) list) list"
  Math_random :: "nat \<Rightarrow> real"
  performance_now :: "nat \<Rightarrow> real"

text \<open>
  The module variables of the worker, followed by the state of its host: the pending
  timeouts and the next timeout handle, the messages posted so far, the console, and how
  often the clock, the random generator and the engine's step have been called.
\<close>

record ('p, 'db, 'n, 'd) Worker =
  program :: "'p option"
  queuedFacts :: "'d Fact list option"
  queuedError :: "string option"
  stats :: WorkerStats
  tree :: "('db, 'n) ChoiceTree option"
  path :: "('n, 'd) Path"
  liveLoopHandle :: "nat option"
  timers :: "nat list"
  nextHandle :: nat
  outbox :: "WorkerToApp list"
  console :: "string list"
  ticks :: nat
  draws :: nat
  calls :: nat

definition CYCLE_LIMIT :: real where
  "CYCLE_LIMIT = 10000"

definition TIME_LIMIT :: real where
  "TIME_LIMIT = 500"

definition zeroStats :: WorkerStats where
  "zeroStats = \<lparr>cycles = 0, deadEnds = 0\<rparr>"

subsection \<open>JavaScript arithmetic\<close>

text \<open>
  A JavaScript number is an IEEE 754 double, and a sum or product is the exact result
  rounded to the nearest double, ties to the even significand. \<open>nearest_even\<close> rounds a
  real to the nearest integer in that way. \<open>binade x\<close> is the exponent of \<open>x\<close>, the \<open>e\<close>
  with \<open>2\<^sup>e \<le> \<bar>x\<bar> < 2\<^sup>e\<^sup>+\<^sup>1\<close>, computed from the bit length of an integer part.
  \<open>round64\<close> rounds to 53 significant bits, and below \<open>2\<^sup>-\<^sup>1\<^sup>0\<^sup>2\<^sup>2\<close> to multiples of
  \<open>2\<^sup>-\<^sup>1\<^sup>0\<^sup>7\<^sup>4\<close>. Results of magnitude \<open>2\<^sup>1\<^sup>0\<^sup>2\<^sup>4\<close> and more, which are infinite in
  JavaScript, do not arise in the worker from finite doubles: it only adds 500 or at most
  20000 to a double and multiplies a double below 1 by 10000.
\<close>

definition nearest_even :: "real \<Rightarrow> int" where
  "nearest_even q =
     (let f = \<lfloor>q\<rfloor>; d = q - of_int f in
      if d < 1 / 2 then f else if 1 / 2 < d then f + 1 else if even f then f else f + 1)"

definition binade :: "real \<Rightarrow> int" where
  "binade x =
     (let a = \<bar>x\<bar> in
      if 1 \<le> a then bitlen \<lfloor>a\<rfloor> - 1
      else (let k = bitlen \<lfloor>1 / a\<rfloor> - 1 in if a * 2 ^ nat k = 1 then - k else - k - 1))"

definition round64 :: "real \<Rightarrow> real" where
  "round64 x =
     (if x = 0 then 0
      else (let u = max (binade x) (- 1022) - 52 in of_int (nearest_even (x / 2 powi u)) * 2 powi u))"

text \<open>\<^verbatim>\<open>a + b\<close> and \<^verbatim>\<open>a * b\<close> on JavaScript numbers.\<close>

definition js_add :: "real \<Rightarrow> real \<Rightarrow> real" where
  "js_add a b = round64 (a + b)"

definition js_mul :: "real \<Rightarrow> real \<Rightarrow> real" where
  "js_mul a b = round64 (a * b)"

subsection \<open>Host operations\<close>

definition post :: "WorkerToApp \<Rightarrow> ('p, 'db, 'n, 'd) Worker \<Rightarrow> ('p, 'db, 'n, 'd) Worker" where
  "post message s = s\<lparr>outbox := outbox s @ [message]\<rparr>"

text \<open>\<^verbatim>\<open>setTimeout(liveLoop)\<close>: a fresh handle, now pending.\<close>

definition setTimeout :: "('p, 'db, 'n, 'd) Worker \<Rightarrow> nat \<times> ('p, 'db, 'n, 'd) Worker" where
  "setTimeout s = (nextHandle s, s\<lparr>timers := timers s @ [nextHandle s], nextHandle := Suc (nextHandle s)\<rparr>)"

definition clearTimeout :: "nat \<Rightarrow> ('p, 'db, 'n, 'd) Worker \<Rightarrow> ('p, 'db, 'n, 'd) Worker" where
  "clearTimeout h s = s\<lparr>timers := removeAll h (timers s)\<rparr>"

subsection \<open>The slice: cycle\<close>

text \<open>
  The four \<^verbatim>\<open>return\<close> statements of \<^verbatim>\<open>cycle\<close>: the tree is null at the top of an
  iteration (line 55), a solution was queued (line 72), something thrown was caught
  (line 77), the loop condition became false (line 80).
\<close>

datatype Exit = TreeNull | Solution | Caught | LoopEnd

fun returned :: "Exit \<Rightarrow> bool" where
  "returned TreeNull = False"
| "returned Solution = False"
| "returned Caught = False"
| "returned LoopEnd = True"

text \<open>The facts of a solution, flattened as lines 62 to 71 do.\<close>

definition flattenFacts :: "(string \<times> ('d list \<times> 'd) list) list \<Rightarrow> 'd Fact list" where
  "flattenFacts entries =
     concat (map (\<lambda>(nm, argses). map (\<lambda>(as, v). \<lparr>name = nm, args = as, val = v\<rparr>) argses) entries)"

text \<open>
  The \<^verbatim>\<open>while\<close> loop of \<^verbatim>\<open>cycle\<close>, with the \<^verbatim>\<open>try\<close> around it. Nothing in the worker
  bounds the number of iterations (the clock and the counters belong to the host and the
  engine), so the loop has fuel: \<open>None\<close> is "still running after that many iterations".
  The clock is read only when the first conjunct of the condition holds.
\<close>

fun cycle_loop :: "nat \<Rightarrow> ('cp, 'p, 'db, 'n, 'd) Env \<Rightarrow> real \<Rightarrow> real \<Rightarrow> ('p, 'db, 'n, 'd) Worker
    \<Rightarrow> (Exit \<times> ('p, 'db, 'n, 'd) Worker) option" where
  "cycle_loop 0 E limit start s = None"
| "cycle_loop (Suc n) E limit start s =
     (if real_of_int (cycles (stats s)) < limit then
        (let s1 = s\<lparr>ticks := Suc (ticks s)\<rparr> in
         if js_add start TIME_LIMIT > performance_now E (ticks s) then
           (case tree s1 of
              None \<Rightarrow> Some (TreeNull, s1)
            | Some t \<Rightarrow>
               (case pathToString E t (path s1) of
                  Inl e \<Rightarrow> Some (Caught, s1\<lparr>queuedError := Some e\<rparr>)
                | Inr line \<Rightarrow>
                   (let s2 = s1\<lparr>console := console s1 @ [line]\<rparr> in
                    case stepTreeRandomDFS E (program s2) t (path s2) (stats s2) (calls s2) of
                      (Inl e, st) \<Rightarrow>
                        Some (Caught, s2\<lparr>stats := st, calls := Suc (calls s2), queuedError := Some e\<rparr>)
                    | (Inr result, st) \<Rightarrow>
                       (let s3 = s2\<lparr>stats := st, calls := Suc (calls s2), tree := r_tree result,
                                    path := (if r_tree result = None then path s2 else r_path result)\<rparr>
                        in case r_solution result of
                             Some sol \<Rightarrow> Some (Solution, s3\<lparr>queuedFacts := Some (flattenFacts (facts_of E sol))\<rparr>)
                           | None \<Rightarrow> cycle_loop n E limit start s3))))
         else Some (LoopEnd, s1))
      else Some (LoopEnd, s))"

text \<open>The quota and the entry time of a slice, as lines 51 and 52 compute them.\<close>

definition cycle_limit :: "('cp, 'p, 'db, 'n, 'd) Env \<Rightarrow> ('p, 'db, 'n, 'd) Worker \<Rightarrow> real" where
  "cycle_limit E s =
     js_add (js_add (real_of_int (cycles (stats s))) CYCLE_LIMIT) (js_mul (Math_random E (draws s)) CYCLE_LIMIT)"

definition cycle_start :: "('cp, 'p, 'db, 'n, 'd) Env \<Rightarrow> ('p, 'db, 'n, 'd) Worker \<Rightarrow> real" where
  "cycle_start E s = performance_now E (ticks s)"

definition cycle_run :: "nat \<Rightarrow> ('cp, 'p, 'db, 'n, 'd) Env \<Rightarrow> ('p, 'db, 'n, 'd) Worker
    \<Rightarrow> (Exit \<times> ('p, 'db, 'n, 'd) Worker) option" where
  "cycle_run n E s =
     cycle_loop n E (cycle_limit E s) (cycle_start E s) (s\<lparr>draws := Suc (draws s), ticks := Suc (ticks s)\<rparr>)"

text \<open>\<^verbatim>\<open>cycle(): boolean\<close>.\<close>

definition cycle :: "nat \<Rightarrow> ('cp, 'p, 'db, 'n, 'd) Env \<Rightarrow> ('p, 'db, 'n, 'd) Worker
    \<Rightarrow> (bool \<times> ('p, 'db, 'n, 'd) Worker) option" where
  "cycle n E s = map_option (\<lambda>(x, s'). (returned x, s')) (cycle_run n E s)"

definition liveLoop :: "nat \<Rightarrow> ('cp, 'p, 'db, 'n, 'd) Env \<Rightarrow> ('p, 'db, 'n, 'd) Worker
    \<Rightarrow> ('p, 'db, 'n, 'd) Worker option" where
  "liveLoop n E s =
     (case cycle n E s of
        None \<Rightarrow> None
      | Some (True, s') \<Rightarrow> (case setTimeout s' of (h, s'') \<Rightarrow> Some (s''\<lparr>liveLoopHandle := Some h\<rparr>))
      | Some (False, s') \<Rightarrow> Some (s'\<lparr>liveLoopHandle := None\<rparr>))"

text \<open>A pending timeout fires: the host drops it and calls \<^verbatim>\<open>liveLoop\<close>.\<close>

definition fire :: "nat \<Rightarrow> ('cp, 'p, 'db, 'n, 'd) Env \<Rightarrow> nat \<Rightarrow> ('p, 'db, 'n, 'd) Worker
    \<Rightarrow> ('p, 'db, 'n, 'd) Worker option" where
  "fire n E h s = (if h \<in> set (timers s) then liveLoop n E (clearTimeout h s) else None)"

subsection \<open>Commands: resume and onmessage\<close>

text \<open>
  \<^verbatim>\<open>queuedError!\<close> is whatever \<^verbatim>\<open>queuedError\<close> holds; \<^verbatim>\<open>queuedFacts!.map\<close> throws a
  TypeError on null, which nothing catches: the handler ends without a message (\<open>None\<close>).
\<close>

definition resume :: "('cp, 'p, 'db, 'n, 'd) Env \<Rightarrow> State \<Rightarrow> ('p, 'db, 'n, 'd) Worker
    \<Rightarrow> ('p, 'db, 'n, 'd) Worker option" where
  "resume E state s =
     (case state of
        S_error \<Rightarrow> Some (post (W_error (stats s) (queuedError s)) s)
      | S_paused \<Rightarrow> Some (post (W_paused (stats s)) s)
      | S_done \<Rightarrow> Some (post (W_done (stats s)) s)
      | S_running \<Rightarrow>
          (case setTimeout s of (h, s1) \<Rightarrow>
             Some (post (W_running (stats s1)) (s1\<lparr>liveLoopHandle := Some h\<rparr>)))
      | S_saturated \<Rightarrow>
          (case queuedFacts s of
             None \<Rightarrow> None
           | Some fs \<Rightarrow>
               Some (post (W_saturated (stats s) (map (factToString E) fs) (tree s = None))
                       (s\<lparr>queuedFacts := None\<rparr>))))"

text \<open>"What state are we actually in?" (lines 127 to 136).\<close>

definition inferState :: "('p, 'db, 'n, 'd) Worker \<Rightarrow> State" where
  "inferState s =
     (if liveLoopHandle s \<noteq> None then S_running
      else if queuedError s \<noteq> None then S_error
      else if queuedFacts s \<noteq> None then S_saturated
      else if tree s = None then S_done
      else S_paused)"

text \<open>"Pause" (lines 139 to 142).\<close>

definition pause :: "('p, 'db, 'n, 'd) Worker \<Rightarrow> ('p, 'db, 'n, 'd) Worker" where
  "pause s = (case liveLoopHandle s of
                Some h \<Rightarrow> (clearTimeout h s)\<lparr>liveLoopHandle := None\<rparr>
              | None \<Rightarrow> s)"

definition onmessage :: "('cp, 'p, 'db, 'n, 'd) Env \<Rightarrow> 'cp AppToWorker \<Rightarrow> ('p, 'db, 'n, 'd) Worker
    \<Rightarrow> ('p, 'db, 'n, 'd) Worker option" where
  "onmessage E ev s0 =
     (let state = inferState s0; s = pause s0 in
      case ev of
        A_load cp \<Rightarrow>
          (let s1 = s\<lparr>stats := zeroStats, path := [], program := Some (program_of E cp),
                      queuedFacts := None, queuedError := None\<rparr>
           in case makeInitialDb E cp of
                Inr db \<Rightarrow> resume E S_paused (s1\<lparr>tree := Some (leaf db)\<rparr>)
              | Inl e \<Rightarrow> resume E S_error (s1\<lparr>queuedError := Some e\<rparr>))
      | A_start \<Rightarrow> if state = S_paused then resume E S_running s else resume E state s
      | A_stop \<Rightarrow> if state = S_running then resume E S_paused s else resume E state s
      | A_reset \<Rightarrow>
          Some (post (W_reset zeroStats)
                  (s\<lparr>stats := zeroStats, tree := None, path := [], program := None,
                     queuedFacts := None, queuedError := None\<rparr>))
      | A_status \<Rightarrow> resume E state s)"

text \<open>The module as loaded: every variable at its initialiser, \<^verbatim>\<open>hello\<close> posted (line 181).\<close>

definition initial :: "('p, 'db, 'n, 'd) Worker" where
  "initial = \<lparr>program = None, queuedFacts = None, queuedError = None, stats = zeroStats,
              tree = None, path = [], liveLoopHandle = None, timers = [], nextHandle = 0,
              outbox = [W_hello zeroStats], console = [], ticks = 0, draws = 0, calls = 0\<rparr>"

text \<open>
  The states the worker can be in between two events: a command arrives, or a pending
  timeout fires and its slice returns.
\<close>

inductive reachable :: "('cp, 'p, 'db, 'n, 'd) Env \<Rightarrow> ('p, 'db, 'n, 'd) Worker \<Rightarrow> bool"
  for E :: "('cp, 'p, 'db, 'n, 'd) Env" where
  r_init: "reachable E initial"
| r_message: "reachable E s \<Longrightarrow> onmessage E ev s = Some s' \<Longrightarrow> reachable E s'"
| r_fire: "reachable E s \<Longrightarrow> fire n E h s = Some s' \<Longrightarrow> reachable E s'"

subsection \<open>Auxiliary definitions\<close>

text \<open>
  The inferred state in the words of the design: running if a continuation is armed, else
  error if an error is pending, else saturated if a solution is pending, else done if the
  search is exhausted, else paused.
\<close>

definition spec_state :: "bool \<Rightarrow> bool \<Rightarrow> bool \<Rightarrow> bool \<Rightarrow> State" where
  "spec_state armed error_pending solution_pending exhausted =
     (if armed then S_running
      else if error_pending then S_error
      else if solution_pending then S_saturated
      else if exhausted then S_done
      else S_paused)"

fun is_saturated :: "WorkerToApp \<Rightarrow> bool" where
  "is_saturated (W_saturated st fs l) = True"
| "is_saturated m = False"

text \<open>
  What holds between two events: the pending timeouts are exactly the one the handle names,
  handles are fresh, nothing is queued while a timeout is pending, and at most one of a
  solution and an error is queued.
\<close>

definition armed_ok :: "('p, 'db, 'n, 'd) Worker \<Rightarrow> bool" where
  "armed_ok s \<longleftrightarrow>
     timers s = (case liveLoopHandle s of None \<Rightarrow> [] | Some h \<Rightarrow> [h]) \<and>
     (\<forall>h \<in> set (timers s). h < nextHandle s) \<and>
     (liveLoopHandle s \<noteq> None \<longrightarrow> queuedFacts s = None \<and> queuedError s = None) \<and>
     (queuedFacts s = None \<or> queuedError s = None)"

text \<open>
  A small engine to run the worker on. A database is a number: stepping the leaf of 0
  exhausts the search without a solution, the leaf of 1 gives the last solution, the leaf
  of 2 throws, and the leaf of \<open>d + 3\<close> moves on to the leaf of \<open>d\<close>. Program 99 does not
  compile to a database. The clock advances 200 units between two readings.
\<close>

definition toyStep :: "nat option \<Rightarrow> (nat, nat) ChoiceTree \<Rightarrow> (nat, nat) Path \<Rightarrow> WorkerStats \<Rightarrow> nat
     \<Rightarrow> (string + (nat, nat, nat) StepResult) \<times> WorkerStats" where
  "toyStep p t pa st k =
     (case t of
        leaf 0 \<Rightarrow> (Inr \<lparr>r_tree = None, r_path = [], r_solution = None\<rparr>,
                    st\<lparr>cycles := cycles st + 1, deadEnds := deadEnds st + 1\<rparr>)
      | leaf (Suc 0) \<Rightarrow> (Inr \<lparr>r_tree = None, r_path = [], r_solution = Some 1\<rparr>, st\<lparr>cycles := cycles st + 1\<rparr>)
      | leaf (Suc (Suc 0)) \<Rightarrow> (Inl ''Error: stuck'', st\<lparr>cycles := cycles st + 1\<rparr>)
      | leaf (Suc (Suc (Suc d))) \<Rightarrow>
          (Inr \<lparr>r_tree = Some (leaf d), r_path = (d, None) # pa, r_solution = None\<rparr>,
           st\<lparr>cycles := cycles st + 1\<rparr>)
      | choice n \<Rightarrow> (Inr \<lparr>r_tree = Some (leaf n), r_path = pa, r_solution = None\<rparr>, st\<lparr>cycles := cycles st + 1\<rparr>))"

definition toyEnv :: "(nat, nat, nat, nat, nat) Env" where
  "toyEnv = \<lparr>makeInitialDb = (\<lambda>cp. if cp = 99 then Inl ''Error: no such program'' else Inr cp),
             stepTreeRandomDFS = toyStep,
             factToString = (\<lambda>f. name f),
             pathToString = (\<lambda>t pa. Inr ''path''),
             program_of = (\<lambda>cp. cp),
             facts_of = (\<lambda>db. [(''p'', [([1], 2), ([3], 4)]), (''q'', [([], 5)])]),
             Math_random = (\<lambda>k. 1 / 2),
             performance_now = (\<lambda>k. 200 * real k)\<rparr>"

text \<open>
  States of the worker on that engine. After \<^verbatim>\<open>load\<close>, \<^verbatim>\<open>start\<close> and one slice of
  program 2 an error is queued; after \<^verbatim>\<open>load\<close> and \<^verbatim>\<open>start\<close> of program 3 a slice is
  scheduled.
\<close>

definition stuck :: "(nat, nat, nat, nat) Worker" where
  "stuck = initial\<lparr>program := Some 2, queuedError := Some ''Error: stuck'',
     stats := \<lparr>cycles = 1, deadEnds = 0\<rparr>, tree := Some (leaf 2), nextHandle := 1,
     outbox := [W_hello zeroStats, W_paused zeroStats, W_running zeroStats],
     console := [''path''], ticks := 2, draws := 1, calls := 1\<rparr>"

definition started :: "(nat, nat, nat, nat) Worker" where
  "started = initial\<lparr>program := Some 3, tree := Some (leaf 3), liveLoopHandle := Some 0, timers := [0],
     nextHandle := 1, outbox := [W_hello zeroStats, W_paused zeroStats, W_running zeroStats]\<rparr>"

text \<open>After \<^verbatim>\<open>load\<close>, \<^verbatim>\<open>start\<close> and one slice of program 1 the last solution is queued.\<close>

definition solved :: "(nat, nat, nat, nat) Worker" where
  "solved = initial\<lparr>program := Some 1,
     queuedFacts := Some [\<lparr>name = ''p'', args = [1], val = 2\<rparr>, \<lparr>name = ''p'', args = [3], val = 4\<rparr>,
       \<lparr>name = ''q'', args = [], val = 5\<rparr>],
     stats := \<lparr>cycles = 1, deadEnds = 0\<rparr>, nextHandle := 1,
     outbox := [W_hello zeroStats, W_paused zeroStats, W_running zeroStats],
     console := [''path''], ticks := 2, draws := 1, calls := 1\<rparr>"

text \<open>
  The state in which the first slice of program 3 leaves the worker on that engine: two
  steps were taken, the second exhausted the search, and then the deadline had passed.
\<close>

definition spent :: "(nat, nat, nat, nat) Worker" where
  "spent = started\<lparr>timers := [], stats := \<lparr>cycles = 2, deadEnds = 1\<rparr>, tree := None,
      path := [(0, None)], console := [''path'', ''path''], ticks := 4, draws := 1, calls := 2\<rparr>"

text \<open>
  Program 3 loaded; and program 0, whose first step exhausts the search, loaded, started,
  and after its first slice.
\<close>

definition loaded :: "(nat, nat, nat, nat) Worker" where
  "loaded = initial\<lparr>program := Some 3, tree := Some (leaf 3), outbox := [W_hello zeroStats, W_paused zeroStats]\<rparr>"

definition loaded0 :: "(nat, nat, nat, nat) Worker" where
  "loaded0 = initial\<lparr>program := Some 0, tree := Some (leaf 0), outbox := [W_hello zeroStats, W_paused zeroStats]\<rparr>"

definition started0 :: "(nat, nat, nat, nat) Worker" where
  "started0 = loaded0\<lparr>liveLoopHandle := Some 0, timers := [0], nextHandle := 1,
     outbox := [W_hello zeroStats, W_paused zeroStats, W_running zeroStats]\<rparr>"

definition done0 :: "(nat, nat, nat, nat) Worker" where
  "done0 = started0\<lparr>liveLoopHandle := None, timers := [], stats := \<lparr>cycles = 1, deadEnds = 1\<rparr>,
     tree := None, console := [''path''], ticks := 3, draws := 1, calls := 1\<rparr>"

text \<open>The worker just loaded, on the small engine.\<close>

definition fresh :: "(nat, nat, nat, nat) Worker" where
  "fresh = initial"

section \<open>Properties\<close>

subsection \<open>Rounding\<close>

lemma nearest_even_floor: "\<lfloor>q\<rfloor> \<le> nearest_even q"
  by (simp add: nearest_even_def Let_def)

lemma nearest_even_ceil: "nearest_even q \<le> \<lfloor>q\<rfloor> + 1"
  by (simp add: nearest_even_def Let_def)

lemma nearest_even_int [simp]: "nearest_even (of_int n) = n"
  by (simp add: nearest_even_def Let_def)

lemma nearest_even_below: "q < of_int n - 1 / 2 \<Longrightarrow> nearest_even q < n"
  unfolding nearest_even_def Let_def by (auto; linarith)

lemma nearest_even_le_int: "q \<le> of_int n \<Longrightarrow> nearest_even q \<le> n"
  unfolding nearest_even_def Let_def by auto linarith

lemma nearest_even_ge_int: "of_int n \<le> q \<Longrightarrow> n \<le> nearest_even q"
  using nearest_even_floor [of q] by linarith

lemma two_powi_Suc: "(2::real) powi (j + 1) = 2 * 2 powi j"
  by (simp add: power_int_add)

lemma two_powi_neg: "0 \<le> k \<Longrightarrow> (2::real) powi (- k) = 1 / 2 ^ nat k"
  by (simp add: power_int_minus_divide power_int_nonneg_exp)

lemma two_powi_less: "(2::real) powi j < 2 powi k \<Longrightarrow> j < k"
  using power_int_increasing [of k j "2::real"] by (cases "j < k") simp_all

lemma two_powi_le: "(2::real) powi j \<le> 2 powi k \<Longrightarrow> j \<le> k"
  using power_int_strict_increasing [of k j "2::real"] by (cases "j \<le> k") simp_all

lemma binade_large:
  assumes "1 \<le> \<bar>x\<bar>"
  shows "0 \<le> binade x" "2 powi binade x \<le> \<bar>x\<bar>" "\<bar>x\<bar> < 2 powi (binade x + 1)"
proof -
  let ?n = "\<lfloor>\<bar>x\<bar>\<rfloor>"
  from assms have n: "0 < ?n" by linarith
  have b: "binade x = bitlen ?n - 1"
    using assms by (simp add: binade_def)
  from bitlen_bounds [OF n] have lo: "2 ^ nat (bitlen ?n - 1) \<le> ?n" and hi: "?n < 2 ^ nat (bitlen ?n)"
    by simp_all
  from n have pos: "1 \<le> bitlen ?n"
    by (simp add: bitlen_alt_def)
  then show "0 \<le> binade x" by (simp add: b)
  have "(2::real) powi binade x = of_int (2 ^ nat (bitlen ?n - 1))"
    using pos by (simp add: b power_int_nonneg_exp)
  also have "\<dots> \<le> of_int ?n"
    using lo by (simp only: of_int_le_iff)
  also have "\<dots> \<le> \<bar>x\<bar>" by simp
  finally show "2 powi binade x \<le> \<bar>x\<bar>" .
  from hi have "?n + 1 \<le> 2 ^ nat (bitlen ?n)" by simp
  then have "of_int (?n + 1) \<le> (of_int (2 ^ nat (bitlen ?n)) :: real)"
    by (simp only: of_int_le_iff)
  moreover have "\<bar>x\<bar> < of_int (?n + 1)" by linarith
  moreover have "(2::real) powi (binade x + 1) = of_int (2 ^ nat (bitlen ?n))"
    using pos by (simp add: b power_int_nonneg_exp)
  ultimately show "\<bar>x\<bar> < 2 powi (binade x + 1)" by linarith
qed

lemma binade_small:
  assumes "x \<noteq> 0" "\<bar>x\<bar> < 1"
  shows "2 powi binade x \<le> \<bar>x\<bar>" "\<bar>x\<bar> < 2 powi (binade x + 1)"
proof -
  let ?a = "\<bar>x\<bar>"
  let ?n = "\<lfloor>1 / ?a\<rfloor>"
  define k where "k = bitlen ?n - 1"
  from assms have a: "0 < ?a" by simp
  with assms have "1 < 1 / ?a" by simp
  then have n: "0 < ?n" by linarith
  from n have pos: "0 \<le> k"
    by (simp add: k_def bitlen_alt_def)
  from bitlen_bounds [OF n] have lo: "2 ^ nat k \<le> ?n" and hi: "?n < 2 ^ nat (k + 1)"
    by (simp_all add: k_def)
  have "of_int (2 ^ nat k) \<le> (of_int ?n :: real)"
    using lo by (simp only: of_int_le_iff)
  also have "\<dots> \<le> 1 / ?a" by simp
  finally have up: "?a * 2 ^ nat k \<le> 1"
    using a by (simp add: field_simps)
  from hi have "?n + 1 \<le> 2 ^ nat (k + 1)" by simp
  then have "of_int (?n + 1) \<le> (of_int (2 ^ nat (k + 1)) :: real)"
    by (simp only: of_int_le_iff)
  then have "of_int ?n + 1 \<le> (2 ^ nat (k + 1) :: real)"
    by simp
  moreover have "1 / ?a < of_int ?n + 1" by linarith
  ultimately have "1 / ?a < 2 ^ nat (k + 1)" by linarith
  moreover have "nat (k + 1) = Suc (nat k)"
    using pos by simp
  ultimately have dn: "1 < ?a * (2 * 2 ^ nat k)"
    using a by (simp add: field_simps)
  have b: "binade x = (if ?a * 2 ^ nat k = 1 then - k else - k - 1)"
    using assms by (simp add: binade_def Let_def k_def)
  have p: "(2::real) powi (- k) = 1 / 2 ^ nat k"
    by (rule two_powi_neg [OF pos])
  have q: "(2::real) powi (- k) = 2 * 2 powi (- k - 1)"
    using two_powi_Suc [of "- k - 1"] by simp
  have r: "(2::real) powi (- k + 1) = 2 * 2 powi (- k)"
    by (rule two_powi_Suc)
  show "2 powi binade x \<le> \<bar>x\<bar>"
  proof (cases "?a * 2 ^ nat k = 1")
    case True
    with a show ?thesis
      unfolding b by (simp add: p field_simps)
  next
    case False
    have "(2::real) powi (- k - 1) = 1 / (2 * 2 ^ nat k)"
      using p q by simp
    moreover have "1 / (2 * 2 ^ nat k) \<le> ?a"
      using dn by (simp add: field_simps)
    ultimately show ?thesis
      unfolding b using False by simp
  qed
  show "\<bar>x\<bar> < 2 powi (binade x + 1)"
  proof (cases "?a * 2 ^ nat k = 1")
    case True
    with a have "?a = 1 / 2 ^ nat k"
      by (simp add: field_simps)
    moreover have "1 / 2 ^ nat k < 2 * (1 / 2 ^ nat k :: real)"
      by (simp add: divide_strict_right_mono)
    ultimately have "?a < 2 powi (- k + 1)"
      unfolding r p by simp
    with True show ?thesis
      unfolding b by simp
  next
    case False
    with up have "?a * 2 ^ nat k < 1"
      by simp
    then have "?a < 2 powi (- k)"
      unfolding p by (simp add: field_simps)
    with False show ?thesis
      unfolding b by simp
  qed
qed

lemma binade_bounds:
  assumes "x \<noteq> 0"
  shows "2 powi binade x \<le> \<bar>x\<bar>" "\<bar>x\<bar> < 2 powi (binade x + 1)"
  using binade_large [of x] binade_small [of x] assms by (cases "1 \<le> \<bar>x\<bar>"; simp)+

lemma binade_eq:
  assumes "2 powi k \<le> \<bar>x\<bar>" "\<bar>x\<bar> < 2 powi (k + 1)"
  shows "binade x = k"
proof -
  have "0 < (2::real) powi k"
    by (simp add: zero_less_power_int)
  with assms(1) have "0 < \<bar>x\<bar>"
    by linarith
  then have nz: "x \<noteq> 0"
    by simp
  note b = binade_bounds [OF nz]
  have "(2::real) powi k < 2 powi (binade x + 1)"
    using assms(1) b(2) by linarith
  then have 1: "k < binade x + 1"
    by (rule two_powi_less)
  have "(2::real) powi binade x < 2 powi (k + 1)"
    using assms(2) b(1) by linarith
  then have 2: "binade x < k + 1"
    by (rule two_powi_less)
  from 1 2 show ?thesis by simp
qed


lemma round64_eval:
  assumes "2 powi k \<le> \<bar>x\<bar>" "\<bar>x\<bar> < 2 powi (k + 1)" "- 1022 \<le> k"
  shows "round64 x = of_int (nearest_even (x / 2 powi (k - 52))) * 2 powi (k - 52)"
proof -
  have "0 < (2::real) powi k"
    by (simp add: zero_less_power_int)
  with assms(1) have "0 < \<bar>x\<bar>" by linarith
  then have "x \<noteq> 0" by simp
  moreover have "binade x = k"
    by (rule binade_eq [OF assms(1,2)])
  ultimately show ?thesis
    using assms(3) by (simp add: round64_def Let_def max_def)
qed

lemma round64_zero [simp]: "round64 0 = 0"
  by (simp add: round64_def)

lemma round64_nonneg: "0 \<le> x \<Longrightarrow> 0 \<le> round64 x"
proof -
  assume x: "0 \<le> x"
  have "0 \<le> nearest_even (x / 2 powi u)" for u
    using x nearest_even_ge_int [of 0 "x / 2 powi u"] by (simp add: zero_less_power_int less_imp_le)
  then show ?thesis
    by (simp add: round64_def Let_def zero_less_power_int less_imp_le)
qed

lemma round64_lower:
  assumes "2 powi k \<le> x" "- 1022 \<le> k"
  shows "2 powi k \<le> round64 x"
proof -
  have pk: "0 < (2::real) powi k"
    by (simp add: zero_less_power_int)
  with assms(1) have x: "0 < x" by linarith
  then have nz: "x \<noteq> 0" by simp
  define e where "e = binade x"
  from binade_bounds [OF nz] x have b: "2 powi e \<le> x" "x < 2 powi (e + 1)"
    by (simp_all add: e_def)
  from assms(1) b(2) have "(2::real) powi k < 2 powi (e + 1)" by linarith
  then have ke: "k \<le> e" using two_powi_less [of k "e + 1"] by simp
  with assms(2) have m: "max e (- 1022) = e" by simp
  have r: "round64 x = of_int (nearest_even (x / 2 powi (e - 52))) * 2 powi (e - 52)"
    using nz m by (simp add: round64_def Let_def e_def)
  have split: "(2::real) powi e = 2 ^ 52 * 2 powi (e - 52)"
    using power_int_add [of "2::real" 52 "e - 52"] by simp
  have pu: "0 < (2::real) powi (e - 52)"
    by (simp add: zero_less_power_int)
  from b(1) have "2 ^ 52 * 2 powi (e - 52) \<le> x"
    unfolding split .
  then have "of_int (2 ^ 52) \<le> x / 2 powi (e - 52)"
    using pu by (simp add: field_simps)
  then have "2 ^ 52 \<le> nearest_even (x / 2 powi (e - 52))"
    by (rule nearest_even_ge_int)
  then have "(2 ^ 52 :: real) \<le> of_int (nearest_even (x / 2 powi (e - 52)))"
    by (metis of_int_le_iff of_int_numeral of_int_power)
  then have "2 powi e \<le> round64 x"
    unfolding r split using pu by (simp add: mult_right_mono less_imp_le)
  moreover have "(2::real) powi k \<le> 2 powi e"
    using ke by (simp add: power_int_increasing)
  ultimately show ?thesis by linarith
qed

lemma round64_upper:
  assumes "0 < x" "x < 2 powi k" "- 1021 \<le> k"
  shows "round64 x \<le> 2 powi k"
proof -
  from assms(1) have nz: "x \<noteq> 0" by simp
  define e where "e = binade x"
  define m where "m = max e (- 1022)"
  from binade_bounds [OF nz] assms(1) have b: "2 powi e \<le> x" "x < 2 powi (e + 1)"
    by (simp_all add: e_def)
  from assms(2) b(1) have "(2::real) powi e < 2 powi k" by linarith
  then have ek: "e < k" by (rule two_powi_less)
  with assms(3) have mk: "m + 1 \<le> k" by (simp add: m_def)
  have em: "e \<le> m" by (simp add: m_def)
  have r: "round64 x = of_int (nearest_even (x / 2 powi (m - 52))) * 2 powi (m - 52)"
    using nz by (simp add: round64_def Let_def e_def m_def)
  have split: "(2::real) powi (m + 1) = 2 ^ 53 * 2 powi (m - 52)"
    using power_int_add [of "2::real" 53 "m - 52"] by (simp add: add.commute)
  have pu: "0 < (2::real) powi (m - 52)"
    by (simp add: zero_less_power_int)
  have "x < 2 powi (m + 1)"
    using b(2) em power_int_increasing [of "e + 1" "m + 1" "2::real"] by simp
  then have "x < 2 ^ 53 * 2 powi (m - 52)"
    unfolding split .
  then have "x / 2 powi (m - 52) \<le> of_int (2 ^ 53)"
    using pu by (simp add: field_simps)
  then have "nearest_even (x / 2 powi (m - 52)) \<le> 2 ^ 53"
    by (rule nearest_even_le_int)
  then have "of_int (nearest_even (x / 2 powi (m - 52))) \<le> (2 ^ 53 :: real)"
    by (metis of_int_le_iff of_int_numeral of_int_power)
  then have "round64 x \<le> 2 powi (m + 1)"
    unfolding r split using pu by (simp add: mult_right_mono less_imp_le)
  moreover have "(2::real) powi (m + 1) \<le> 2 powi k"
    using mk by (simp add: power_int_increasing)
  ultimately show ?thesis by linarith
qed


lemma round64_nat:
  assumes "n \<le> 2 ^ 53"
  shows "round64 (of_nat n) = of_nat n"
proof (cases "n = 0")
  case True
  then show ?thesis by simp
next
  case False
  define x :: real where "x = of_nat n"
  from False have x1: "1 \<le> \<bar>x\<bar>" and xp: "\<bar>x\<bar> = x" by (simp_all add: x_def)
  define e where "e = binade x"
  note b = binade_large [OF x1, folded e_def, unfolded xp]
  have r: "round64 x = of_int (nearest_even (x / 2 powi (e - 52))) * 2 powi (e - 52)"
    using binade_bounds [of x] b False by (intro round64_eval) (simp_all add: x_def e_def)
  have "x \<le> 2 powi 53"
    using assms unfolding x_def by (metis numeral_power_le_of_nat_cancel_iff of_nat_le_iff of_nat_numeral of_nat_power power_int_numeral)
  with b(2) have "(2::real) powi e \<le> 2 powi 53" by linarith
  then have e53: "e \<le> 53"
    by (rule two_powi_le)
  have "\<exists>k::int. x / 2 powi (e - 52) = of_int k"
  proof (cases "e \<le> 52")
    case True
    then have "(2::real) powi (e - 52) = 1 / 2 ^ nat (52 - e)"
      using two_powi_neg [of "52 - e"] by simp
    then have "x / 2 powi (e - 52) = of_int (int n * 2 ^ nat (52 - e))"
      by (simp add: x_def)
    then show ?thesis ..
  next
    case False
    with e53 have e: "e = 53" by simp
    with b(2) \<open>x \<le> 2 powi 53\<close> have "x = 2 ^ 53" by simp
    then have "x / 2 powi (e - 52) = of_int (2 ^ 52)"
      by (simp add: e)
    then show ?thesis ..
  qed
  then obtain k :: int where k: "x / 2 powi (e - 52) = of_int k" ..
  have "0 < (2::real) powi (e - 52)"
    by (simp add: zero_less_power_int)
  with k have "of_int k * 2 powi (e - 52) = x"
    by (simp add: field_simps)
  moreover have "round64 x = of_int k * 2 powi (e - 52)"
    unfolding r k by simp
  ultimately show ?thesis
    by (simp add: x_def)
qed


lemma round64_numeral [simp]:
  "(numeral k :: nat) \<le> 2 ^ 53 \<Longrightarrow> round64 (numeral k) = numeral k"
  using round64_nat [of "numeral k"] by simp

lemma round64_one [simp]: "round64 1 = 1"
  using round64_nat [of 1] by simp

lemma double_below_one:
  assumes "round64 r = r" "r < 1"
  shows "r \<le> 1 - 1 / 2 ^ 53"
proof (cases "r < 1 / 2")
  case True
  then show ?thesis by simp
next
  case False
  then have lo: "2 powi (- 1) \<le> \<bar>r\<bar>" and hi: "\<bar>r\<bar> < 2 powi (- 1 + 1)"
    using assms(2) by (simp_all add: power_int_minus_divide)
  define K where "K = nearest_even (r / 2 powi (- 1 - 52))"
  from round64_eval [OF lo hi] assms(1) have r: "r = of_int K * 2 powi (- 1 - 52)"
    by (simp add: K_def)
  have p: "(2::real) powi (- 1 - 52) = 1 / 2 ^ 53"
    using two_powi_neg [of 53] by simp
  from r have rK: "r = of_int K / 2 ^ 53"
    unfolding p by simp
  with assms(2) have "of_int K < (2 ^ 53 :: real)"
    by (simp add: field_simps)
  then have "K < 2 ^ 53"
    by (metis of_int_less_iff of_int_numeral of_int_power)
  then have "K \<le> 2 ^ 53 - 1" by simp
  then have "of_int K \<le> (of_int (2 ^ 53 - 1) :: real)"
    by (simp only: of_int_le_iff)
  then show ?thesis
    unfolding rK by (simp add: field_simps)
qed

lemma jitter_bound:
  assumes "round64 r = r" "0 \<le> r" "r < 1"
  shows "0 \<le> round64 (r * 10000)" "round64 (r * 10000) < 10000"
proof -
  define x where "x = r * 10000"
  from assms(2) have x0: "0 \<le> x" by (simp add: x_def)
  then show "0 \<le> round64 (r * 10000)"
    unfolding x_def by (rule round64_nonneg)
  from double_below_one [OF assms(1,3)] have xu: "x \<le> 10000 - 10000 / 2 ^ 53"
    by (simp add: x_def)
  consider "x = 0" | "0 < x" "x < 2 powi 13" | "2 powi 13 \<le> x"
    using x0 by fastforce
  then have "round64 x < 10000"
  proof cases
    case 1
    then show ?thesis by simp
  next
    case 2
    from round64_upper [OF 2] show ?thesis by simp
  next
    case 3
    with x0 xu have lo: "2 powi 13 \<le> \<bar>x\<bar>" and hi: "\<bar>x\<bar> < 2 powi (13 + 1)"
      by simp_all
    define K where "K = nearest_even (x / 2 powi (13 - 52))"
    from round64_eval [OF lo hi] have r: "round64 x = of_int K * 2 powi (13 - 52)"
      by (simp add: K_def)
    have p: "(2::real) powi (13 - 52) = 1 / 2 ^ 39"
      using two_powi_neg [of 39] by simp
    from xu have "x / 2 powi (13 - 52) < of_int 5497558138880000 - 1 / 2"
      unfolding p by simp
    then have "K < 5497558138880000"
      unfolding K_def by (rule nearest_even_below)
    then have "of_int K < (of_int 5497558138880000 :: real)"
      by (simp only: of_int_less_iff)
    then show ?thesis
      unfolding r p by simp
  qed
  then show "round64 (r * 10000) < 10000"
    by (simp add: x_def)
qed

text \<open>
  Two roundings that exact arithmetic would miss: the quota can be the counter plus 20000,
  and the deadline of a slice entered at the double of 0.2 is the double of 500.2, which
  is below the exact sum.
\<close>

lemma quota_rounds_up:
  "round64 (round64 (0 + 10000) + round64 ((1 - 1 / 2 ^ 53) * 10000)) = 20000"
proof -
  have a: "round64 ((1 - 1 / 2 ^ 53) * 10000) = 10000 - 1 / 2 ^ 39"
    by (subst round64_eval [of 13]) (simp_all add: nearest_even_def power_int_minus_divide)
  have b: "round64 (10000 + (10000 - 1 / 2 ^ 39)) = 20000"
    by (subst round64_eval [of 14]) (simp_all add: nearest_even_def power_int_minus_divide)
  have c: "round64 (0 + 10000) = 10000"
    by simp
  show ?thesis
    unfolding c a by (rule b)
qed

lemma deadline_rounds:
  "round64 (1 / 5) = 3602879701896397 / 2 ^ 54"
  "round64 (5002 / 10) = 8799611459416883 / 2 ^ 44"
  "round64 (3602879701896397 / 2 ^ 54 + 500) = 8799611459416883 / 2 ^ 44"
  "(8799611459416883 / 2 ^ 44 :: real) < 3602879701896397 / 2 ^ 54 + 500"
     apply (subst round64_eval [of "- 3"]; simp add: nearest_even_def power_int_minus_divide)
    apply (subst round64_eval [of 8]; simp add: nearest_even_def power_int_minus_divide)
   apply (subst round64_eval [of 8]; simp add: nearest_even_def power_int_minus_divide)
  apply simp
  done

subsection \<open>The slice\<close>

lemma cycle_loop_frame:
  "cycle_loop n E limit start s = Some (x, s') \<Longrightarrow>
     liveLoopHandle s' = liveLoopHandle s \<and> timers s' = timers s \<and> nextHandle s' = nextHandle s \<and>
     outbox s' = outbox s \<and> program s' = program s \<and> draws s' = draws s"
proof (induction n arbitrary: s)
  case 0
  then show ?case by simp
next
  case (Suc n)
  from Suc.prems show ?case
    by (auto simp: Let_def split: if_splits option.splits sum.splits prod.splits dest!: Suc.IH)
qed

lemma cycle_loop_pending:
  "cycle_loop n E limit start s = Some (x, s') \<Longrightarrow>
     (case x of
        LoopEnd \<Rightarrow> queuedFacts s' = queuedFacts s \<and> queuedError s' = queuedError s
      | TreeNull \<Rightarrow> queuedFacts s' = queuedFacts s \<and> queuedError s' = queuedError s \<and> tree s' = None
      | Solution \<Rightarrow> queuedError s' = queuedError s \<and> (\<exists>sol. queuedFacts s' = Some (flattenFacts (facts_of E sol)))
      | Caught \<Rightarrow> queuedFacts s' = queuedFacts s \<and> (\<exists>e. queuedError s' = Some e))"
proof (induction n arbitrary: s)
  case 0
  then show ?case by simp
next
  case (Suc n)
  from Suc.prems show ?case
    by (auto simp: Let_def split: if_splits option.splits sum.splits prod.splits Exit.splits dest!: Suc.IH)
qed

lemma cycle_loop_end:
  "cycle_loop n E limit start s = Some (LoopEnd, s') \<Longrightarrow>
     \<not> real_of_int (cycles (stats s')) < limit \<or>
     (0 < ticks s' \<and> \<not> js_add start TIME_LIMIT > performance_now E (ticks s' - 1))"
proof (induction n arbitrary: s)
  case 0
  then show ?case by simp
next
  case (Suc n)
  from Suc.prems show ?case
    by (auto simp: Let_def split: if_splits option.splits sum.splits prod.splits dest!: Suc.IH)
qed

lemma cycle_loop_exhausted:
  "cycle_loop n E limit start s = Some (x, s') \<Longrightarrow> tree s = None \<Longrightarrow>
     calls s' = calls s \<and> stats s' = stats s \<and> tree s' = None \<and> (x = TreeNull \<or> x = LoopEnd)"
  by (cases n) (auto simp: Let_def split: if_splits)

text \<open>More fuel does not change what a slice returns.\<close>

lemma cycle_loop_mono:
  "cycle_loop n E limit start s = Some r \<Longrightarrow> cycle_loop (n + k) E limit start s = Some r"
proof (induction n arbitrary: s)
  case 0
  then show ?case by simp
next
  case (Suc n)
  from Suc.prems show ?case
    by (auto simp: Let_def split: if_splits option.splits sum.splits prod.splits dest!: Suc.IH)
qed

text \<open>
  A slice returns once the clock has reached the deadline: if the \<open>k\<close>-th reading from now
  is not before it, \<open>k + 1\<close> iterations are enough.
\<close>

lemma cycle_loop_returns:
  "\<not> js_add start TIME_LIMIT > performance_now E (ticks s + k) \<Longrightarrow>
     cycle_loop (Suc k) E limit start s \<noteq> None"
proof (induction k arbitrary: s)
  case 0
  then show ?case by (auto simp: Let_def)
next
  case (Suc k)
  have later: "\<exists>x t'. cycle_loop (Suc k) E limit start t = Some (x, t')" if "ticks t = Suc (ticks s)" for t
    using Suc.IH [of t] Suc.prems that by (simp del: cycle_loop.simps)
  show ?case
    by (subst cycle_loop.simps(2))
      (simp del: cycle_loop.simps add: Let_def later split: option.splits sum.splits prod.splits)
qed

lemma cycle_run_returns:
  "\<not> js_add (cycle_start E s) TIME_LIMIT > performance_now E (Suc (ticks s) + k) \<Longrightarrow>
     cycle_run (Suc k) E s \<noteq> None"
  unfolding cycle_run_def
  using cycle_loop_returns [where start = "cycle_start E s" and E = E and k = k
      and s = "s\<lparr>draws := Suc (draws s), ticks := Suc (ticks s)\<rparr>"]
  by simp

lemma cycle_run_frame:
  "cycle_run n E s = Some (x, s') \<Longrightarrow>
     liveLoopHandle s' = liveLoopHandle s \<and> timers s' = timers s \<and> nextHandle s' = nextHandle s \<and>
     outbox s' = outbox s \<and> program s' = program s"
  unfolding cycle_run_def by (drule cycle_loop_frame) simp

lemma cycle_run_pending:
  "cycle_run n E s = Some (x, s') \<Longrightarrow>
     (case x of
        LoopEnd \<Rightarrow> queuedFacts s' = queuedFacts s \<and> queuedError s' = queuedError s
      | TreeNull \<Rightarrow> queuedFacts s' = queuedFacts s \<and> queuedError s' = queuedError s \<and> tree s' = None
      | Solution \<Rightarrow> queuedError s' = queuedError s \<and> (\<exists>sol. queuedFacts s' = Some (flattenFacts (facts_of E sol)))
      | Caught \<Rightarrow> queuedFacts s' = queuedFacts s \<and> (\<exists>e. queuedError s' = Some e))"
  unfolding cycle_run_def by (drule cycle_loop_pending) (cases x; simp)

subsection \<open>Between two events\<close>

lemmas command_defs = onmessage_def resume_def inferState_def pause_def post_def setTimeout_def
  clearTimeout_def

lemma armed_ok_initial: "armed_ok initial"
  by (simp add: armed_ok_def initial_def)

lemma armed_ok_onmessage:
  "armed_ok s \<Longrightarrow> onmessage E ev s = Some s' \<Longrightarrow> armed_ok s'"
  by (cases ev)
    (auto simp: armed_ok_def command_defs Let_def split: option.splits sum.splits if_splits)

lemma armed_ok_fire:
  assumes "armed_ok s" and "fire n E h s = Some s'"
  shows "armed_ok s'"
proof -
  from assms(2) have h: "h \<in> set (timers s)" and l: "liveLoop n E (clearTimeout h s) = Some s'"
    by (auto simp: fire_def split: if_splits)
  from assms(1) h have hs: "liveLoopHandle s = Some h" "timers s = [h]" "h < nextHandle s"
    "queuedFacts s = None" "queuedError s = None"
    by (auto simp: armed_ok_def split: option.splits)
  let ?c = "clearTimeout h s"
  from l obtain x t where run: "cycle_run n E ?c = Some (x, t)"
    by (auto simp: liveLoop_def cycle_def split: option.splits)
  note fr = cycle_run_frame [OF run] and pe = cycle_run_pending [OF run]
  from l run have s': "s' = (if returned x then (snd (setTimeout t))\<lparr>liveLoopHandle := Some (fst (setTimeout t))\<rparr>
       else t\<lparr>liveLoopHandle := None\<rparr>)"
    by (auto simp: liveLoop_def cycle_def split: prod.splits)
  show ?thesis
    using fr pe hs unfolding s'
    by (cases x) (auto simp: armed_ok_def setTimeout_def clearTimeout_def)
qed

lemma reachable_armed_ok: "reachable E s \<Longrightarrow> armed_ok s"
  by (induction rule: reachable.induct)
    (auto intro: armed_ok_initial armed_ok_onmessage armed_ok_fire)

lemma pause_fields [simp]:
  "liveLoopHandle (pause s) = None"
  "program (pause s) = program s" "queuedFacts (pause s) = queuedFacts s"
  "queuedError (pause s) = queuedError s" "stats (pause s) = stats s" "tree (pause s) = tree s"
  "path (pause s) = path s" "nextHandle (pause s) = nextHandle s" "outbox (pause s) = outbox s"
  "console (pause s) = console s" "ticks (pause s) = ticks s" "draws (pause s) = draws s"
  "calls (pause s) = calls s"
  by (simp_all add: pause_def clearTimeout_def split: option.splits)

lemma pause_timers:
  "timers (pause s) = (case liveLoopHandle s of None \<Rightarrow> timers s | Some h \<Rightarrow> removeAll h (timers s))"
  by (simp add: pause_def clearTimeout_def split: option.splits)

lemma pause_idle: "liveLoopHandle s = None \<Longrightarrow> pause s = s"
  by (simp add: pause_def)

lemma reachable_pause_timers: "reachable E s \<Longrightarrow> timers (pause s) = []"
  by (drule reachable_armed_ok) (auto simp: armed_ok_def pause_timers split: option.splits)

lemma inferState_iff:
  "inferState s = S_running \<longleftrightarrow> liveLoopHandle s \<noteq> None"
  "inferState s = S_error \<longleftrightarrow> liveLoopHandle s = None \<and> queuedError s \<noteq> None"
  "inferState s = S_saturated \<longleftrightarrow>
     liveLoopHandle s = None \<and> queuedError s = None \<and> queuedFacts s \<noteq> None"
  "inferState s = S_done \<longleftrightarrow>
     liveLoopHandle s = None \<and> queuedError s = None \<and> queuedFacts s = None \<and> tree s = None"
  "inferState s = S_paused \<longleftrightarrow>
     liveLoopHandle s = None \<and> queuedError s = None \<and> queuedFacts s = None \<and> tree s \<noteq> None"
  by (simp_all add: inferState_def)

text \<open>The worker on the small engine, after \<^verbatim>\<open>load\<close> and \<^verbatim>\<open>start\<close>.\<close>

lemma toy_load: "onmessage toyEnv (A_load 3) initial =
    Some (initial\<lparr>program := Some 3, tree := Some (leaf 3), outbox := [W_hello zeroStats, W_paused zeroStats]\<rparr>)"
  by (simp add: command_defs toyEnv_def initial_def)

lemma toy_start: "onmessage toyEnv A_start
     (initial\<lparr>program := Some 3, tree := Some (leaf 3), outbox := [W_hello zeroStats, W_paused zeroStats]\<rparr>) =
    Some started"
  by (simp add: command_defs toyEnv_def initial_def started_def)

lemma reachable_started: "reachable toyEnv started"
  by (rule r_message [OF r_message [OF r_init toy_load] toy_start])

lemma reachable_stuck: "reachable toyEnv stuck"
proof -
  let ?l = "initial\<lparr>program := Some 2, tree := Some (leaf 2),
    outbox := [W_hello zeroStats, W_paused zeroStats]\<rparr> :: (nat, nat, nat, nat) Worker"
  let ?s = "?l\<lparr>liveLoopHandle := Some 0, timers := [0], nextHandle := 1,
    outbox := [W_hello zeroStats, W_paused zeroStats, W_running zeroStats]\<rparr>"
  have 1: "onmessage toyEnv (A_load 2) initial = Some ?l"
    by (simp add: command_defs toyEnv_def initial_def)
  have 2: "onmessage toyEnv A_start ?l = Some ?s"
    by (simp add: command_defs toyEnv_def initial_def)
  have 3: "fire (Suc 0) toyEnv 0 ?s = Some stuck"
    by (simp add: fire_def liveLoop_def cycle_def cycle_run_def cycle_limit_def cycle_start_def
      clearTimeout_def stuck_def initial_def zeroStats_def toyEnv_def toyStep_def
      CYCLE_LIMIT_def TIME_LIMIT_def js_add_def js_mul_def)
  show ?thesis
    by (rule r_fire [OF r_message [OF r_message [OF r_init 1] 2] 3])
qed

lemma reachable_solved: "reachable toyEnv solved"
proof -
  let ?l = "initial\<lparr>program := Some 1, tree := Some (leaf 1),
    outbox := [W_hello zeroStats, W_paused zeroStats]\<rparr> :: (nat, nat, nat, nat) Worker"
  let ?s = "?l\<lparr>liveLoopHandle := Some 0, timers := [0], nextHandle := 1,
    outbox := [W_hello zeroStats, W_paused zeroStats, W_running zeroStats]\<rparr>"
  have 1: "onmessage toyEnv (A_load 1) initial = Some ?l"
    by (simp add: command_defs toyEnv_def initial_def)
  have 2: "onmessage toyEnv A_start ?l = Some ?s"
    by (simp add: command_defs toyEnv_def initial_def)
  have 3: "fire (Suc 0) toyEnv 0 ?s = Some solved"
    by (simp add: fire_def liveLoop_def cycle_def cycle_run_def cycle_limit_def cycle_start_def
      clearTimeout_def solved_def initial_def zeroStats_def toyEnv_def toyStep_def flattenFacts_def
      CYCLE_LIMIT_def TIME_LIMIT_def js_add_def js_mul_def)
  show ?thesis
    by (rule r_fire [OF r_message [OF r_message [OF r_init 1] 2] 3])
qed

text \<open>What a command posts and what it leaves queued.\<close>

lemma onmessage_outbox:
  "onmessage E ev s = Some s' \<Longrightarrow> \<exists>m. outbox s' = outbox s @ [m]"
  by (cases ev)
    (auto simp: onmessage_def resume_def post_def setTimeout_def Let_def
      split: option.splits sum.splits if_splits State.splits)

lemma onmessage_no_facts:
  "onmessage E ev s = Some s' \<Longrightarrow> queuedFacts s = None \<Longrightarrow>
     queuedFacts s' = None \<and> \<not> is_saturated (last (outbox s'))"
  by (cases ev)
    (auto simp: onmessage_def resume_def post_def setTimeout_def Let_def inferState_def
      split: option.splits sum.splits if_splits State.splits)

lemma onmessage_new_error:
  "onmessage E ev s = Some s' \<Longrightarrow> queuedError s = None \<Longrightarrow> queuedError s' \<noteq> None \<Longrightarrow>
     \<exists>cp e. ev = A_load cp \<and> makeInitialDb E cp = Inl e \<and> queuedError s' = Some e"
  by (cases ev)
    (auto simp: onmessage_def resume_def post_def setTimeout_def Let_def inferState_def
      split: option.splits sum.splits if_splits State.splits)

lemma onmessage_saturated:
  assumes "onmessage E ev s = Some s'" and "last (outbox s') = W_saturated st fs l"
  shows "ev \<in> {A_status, A_start, A_stop} \<and> inferState s = S_saturated"
  using assms
  by (cases ev)
    (auto simp: onmessage_def resume_def post_def setTimeout_def Let_def
      split: option.splits sum.splits if_splits State.splits)

lemma saturated_step:
  assumes "inferState s = S_saturated" and "ev \<in> {A_status, A_start, A_stop}"
  shows "\<exists>qs. queuedFacts s = Some qs \<and>
     onmessage E ev s =
       Some (s\<lparr>queuedFacts := None,
               outbox := outbox s @ [W_saturated (stats s) (map (factToString E) qs) (tree s = None)]\<rparr>)"
proof -
  from assms(1) obtain qs where q: "queuedFacts s = Some qs" and idle: "liveLoopHandle s = None"
    by (auto simp: inferState_iff)
  from assms q idle show ?thesis
    by (auto simp: onmessage_def pause_idle resume_def post_def)
qed

text \<open>Where a handle comes from.\<close>

lemma cycle_queues:
  assumes "cycle n E s = Some (b, s')"
    and "queuedFacts s' \<noteq> queuedFacts s \<or> queuedError s' \<noteq> queuedError s"
  shows "\<not> b"
proof -
  from assms(1) obtain x where r: "cycle_run n E s = Some (x, s')" and b: "b = returned x"
    by (auto simp: cycle_def)
  from cycle_run_pending [OF r] assms(2) b show ?thesis
    by (cases x) auto
qed

lemma liveLoop_queues:
  assumes "liveLoop n E s = Some s'"
    and "queuedFacts s' \<noteq> queuedFacts s \<or> queuedError s' \<noteq> queuedError s"
  shows "liveLoopHandle s' = None"
proof -
  from assms(1) obtain b t where c: "cycle n E s = Some (b, t)"
    by (auto simp: liveLoop_def split: option.splits)
  show ?thesis
  proof (cases b)
    case True
    with assms(1) c have "queuedFacts s' = queuedFacts t" "queuedError s' = queuedError t"
      by (auto simp: liveLoop_def setTimeout_def)
    with cycle_queues [OF c] assms(2) True show ?thesis
      by auto
  next
    case False
    with assms(1) c show ?thesis
      by (auto simp: liveLoop_def)
  qed
qed

lemma onmessage_arms:
  assumes "onmessage E ev s = Some s'" and "liveLoopHandle s' \<noteq> None"
  shows "ev = A_start \<and> inferState s = S_paused \<or>
     ev \<in> {A_start, A_status} \<and> inferState s = S_running"
  using assms
  by (cases ev; cases "inferState s")
    (auto simp: onmessage_def resume_def post_def Let_def split: option.splits sum.splits)

text \<open>The first slice of program 3 on the small engine.\<close>

lemma toy_slice:
  "cycle_run (Suc (Suc (Suc 0))) toyEnv (clearTimeout 0 started) = Some (LoopEnd, spent)"
  by (simp add: cycle_run_def cycle_limit_def cycle_start_def clearTimeout_def started_def spent_def
      initial_def zeroStats_def toyEnv_def toyStep_def CYCLE_LIMIT_def TIME_LIMIT_def js_add_def js_mul_def)

text \<open>The small engine: a load that fails after one that succeeded, and program 0.\<close>

lemma toy_loaded: "onmessage toyEnv (A_load 3) initial = Some loaded"
  by (simp add: command_defs toyEnv_def initial_def loaded_def)

lemma toy0_load: "onmessage toyEnv (A_load 0) initial = Some loaded0"
  by (simp add: command_defs toyEnv_def initial_def loaded0_def)

lemma toy0_start: "onmessage toyEnv A_start loaded0 = Some started0"
  by (simp add: command_defs toyEnv_def initial_def loaded0_def started0_def)

lemma toy0_fire: "fire (Suc (Suc 0)) toyEnv 0 started0 = Some done0"
  by (simp add: fire_def liveLoop_def cycle_def cycle_run_def cycle_limit_def cycle_start_def
      clearTimeout_def started0_def loaded0_def done0_def
      initial_def zeroStats_def toyEnv_def toyStep_def CYCLE_LIMIT_def TIME_LIMIT_def js_add_def js_mul_def)

lemma cycle_loop_calls:
  "cycle_loop n E limit start s = Some (x, s') \<Longrightarrow> calls s \<le> calls s'"
proof (induction n arbitrary: s)
  case 0
  then show ?case by simp
next
  case (Suc n)
  from Suc.prems show ?case
    by (auto simp: Let_def split: if_splits option.splits sum.splits prod.splits dest!: Suc.IH)
qed

text \<open>What \<^verbatim>\<open>load\<close> does, by the outcome of \<^verbatim>\<open>makeInitialDb\<close>.\<close>

lemma load_succeeds:
  "makeInitialDb E cp = Inr db \<Longrightarrow>
     onmessage E (A_load cp) s =
       Some ((pause s)\<lparr>stats := zeroStats, path := [], program := Some (program_of E cp),
               queuedFacts := None, queuedError := None, tree := Some (leaf db),
               outbox := outbox s @ [W_paused zeroStats]\<rparr>)"
  by (simp add: onmessage_def resume_def post_def Let_def)

lemma load_fails:
  "makeInitialDb E cp = Inl e \<Longrightarrow>
     onmessage E (A_load cp) s =
       Some ((pause s)\<lparr>stats := zeroStats, path := [], program := Some (program_of E cp),
               queuedFacts := None, queuedError := Some e,
               outbox := outbox s @ [W_error zeroStats (Some e)]\<rparr>)"
  by (simp add: onmessage_def resume_def post_def Let_def)

text \<open>
  The handler always posts: \<^verbatim>\<open>resume\<close> is called with \<^verbatim>\<open>saturated\<close> only when that
  state was inferred, and then facts are queued.
\<close>

lemma resume_inferred: "resume E (inferState s) (pause s) \<noteq> None"
proof (cases "inferState s")
  case S_saturated
  then obtain fs where "queuedFacts s = Some fs"
    by (auto simp: inferState_iff)
  with S_saturated show ?thesis
    by (simp add: resume_def)
qed (simp_all add: resume_def setTimeout_def)

lemma onmessage_total: "onmessage E ev s \<noteq> None"
  using resume_inferred [of E s]
  by (cases ev) (auto simp: onmessage_def resume_def setTimeout_def Let_def split: sum.splits)

text \<open>One iteration of the loop, branch by branch.\<close>

lemma loop_quota_reached:
  "\<not> real_of_int (cycles (stats t)) < l \<Longrightarrow> cycle_loop (Suc m) E l st t = Some (LoopEnd, t)"
  by simp

lemma loop_deadline_reached:
  "real_of_int (cycles (stats t)) < l \<Longrightarrow> \<not> performance_now E (ticks t) < js_add st TIME_LIMIT \<Longrightarrow>
     cycle_loop (Suc m) E l st t = Some (LoopEnd, t\<lparr>ticks := Suc (ticks t)\<rparr>)"
  by (simp add: Let_def)

lemma loop_tree_null:
  "real_of_int (cycles (stats t)) < l \<Longrightarrow> performance_now E (ticks t) < js_add st TIME_LIMIT \<Longrightarrow>
     tree t = None \<Longrightarrow>
     cycle_loop (Suc m) E l st t = Some (TreeNull, t\<lparr>ticks := Suc (ticks t)\<rparr>)"
  by (simp add: Let_def)

lemma loop_print_throws:
  "real_of_int (cycles (stats t)) < l \<Longrightarrow> performance_now E (ticks t) < js_add st TIME_LIMIT \<Longrightarrow>
     tree t = Some tr \<Longrightarrow> pathToString E tr (path t) = Inl e \<Longrightarrow>
     cycle_loop (Suc m) E l st t = Some (Caught, t\<lparr>ticks := Suc (ticks t), queuedError := Some e\<rparr>)"
  by (simp add: Let_def)

lemma loop_step_throws:
  "real_of_int (cycles (stats t)) < l \<Longrightarrow> performance_now E (ticks t) < js_add st TIME_LIMIT \<Longrightarrow>
     tree t = Some tr \<Longrightarrow> pathToString E tr (path t) = Inr line \<Longrightarrow>
     stepTreeRandomDFS E (program t) tr (path t) (stats t) (calls t) = (Inl e, c) \<Longrightarrow>
     cycle_loop (Suc m) E l st t =
       Some (Caught, t\<lparr>ticks := Suc (ticks t), console := console t @ [line], stats := c,
                       calls := Suc (calls t), queuedError := Some e\<rparr>)"
  by (simp add: Let_def)

lemma loop_solution:
  "real_of_int (cycles (stats t)) < l \<Longrightarrow> performance_now E (ticks t) < js_add st TIME_LIMIT \<Longrightarrow>
     tree t = Some tr \<Longrightarrow> pathToString E tr (path t) = Inr line \<Longrightarrow>
     stepTreeRandomDFS E (program t) tr (path t) (stats t) (calls t) = (Inr r, c) \<Longrightarrow>
     r_solution r = Some sol \<Longrightarrow>
     cycle_loop (Suc m) E l st t =
       Some (Solution, t\<lparr>ticks := Suc (ticks t), console := console t @ [line], stats := c,
                         calls := Suc (calls t), tree := r_tree r,
                         path := (if r_tree r = None then path t else r_path r),
                         queuedFacts := Some (flattenFacts (facts_of E sol))\<rparr>)"
  by (simp add: Let_def)

lemma loop_continues:
  "real_of_int (cycles (stats t)) < l \<Longrightarrow> performance_now E (ticks t) < js_add st TIME_LIMIT \<Longrightarrow>
     tree t = Some tr \<Longrightarrow> pathToString E tr (path t) = Inr line \<Longrightarrow>
     stepTreeRandomDFS E (program t) tr (path t) (stats t) (calls t) = (Inr r, c) \<Longrightarrow>
     r_solution r = None \<Longrightarrow>
     cycle_loop (Suc m) E l st t =
       cycle_loop m E l st
         (t\<lparr>ticks := Suc (ticks t), console := console t @ [line], stats := c,
            calls := Suc (calls t), tree := r_tree r,
            path := (if r_tree r = None then path t else r_path r)\<rparr>)"
  by (simp add: Let_def)

lemma loop_stepped:
  assumes "cycle_loop m E l st t = Some (x, t')" and "calls t' \<noteq> calls t"
  shows "real_of_int (cycles (stats t)) < l \<and> performance_now E (ticks t) < js_add st TIME_LIMIT"
proof (cases m)
  case 0
  with assms show ?thesis by simp
next
  case (Suc k)
  with assms show ?thesis
    by (auto simp: Let_def split: if_splits)
qed

lemma nearest_even_numeral [simp]: "nearest_even (numeral k) = numeral k"
  using nearest_even_int [of "numeral k"] by simp

lemma round64_half: "round64 (1 / 2) = 1 / 2"
  by (subst round64_eval [of "- 1"]) (simp_all add: power_int_minus_divide)

text \<open>The quota of a slice that starts with the counter at zero is positive.\<close>

lemma quota_positive:
  assumes "0 \<le> r"
  shows "0 < js_add (js_add 0 CYCLE_LIMIT) (js_mul r CYCLE_LIMIT)"
proof -
  have j: "0 \<le> round64 (r * 10000)"
    using assms by (intro round64_nonneg) simp
  have "(2::real) powi 13 \<le> round64 (10000 + round64 (r * 10000))"
    using j by (intro round64_lower) simp_all
  then show ?thesis
    by (simp add: js_add_def js_mul_def CYCLE_LIMIT_def)
qed

text \<open>Adding 10000 to a counter in the range of the exact integers is exact.\<close>

lemma round64_counter:
  assumes "0 \<le> c" "c \<le> 2 ^ 53 - 10000"
  shows "round64 (real_of_int c + 10000) = real_of_int c + 10000"
proof -
  have e: "real_of_int c + 10000 = of_nat (nat c + 10000)"
    using assms(1) by simp
  have "nat c + 10000 \<le> 2 ^ 53"
    using assms by (simp add: nat_le_iff)
  then show ?thesis
    unfolding e by (rule round64_nat)
qed

text \<open>
  The same two roundings in the slice: with the counter at zero and the largest random
  number the quota is 20000, and a slice entered at the double of 0.2 does not step when
  the clock reads the double of 500.2.
\<close>

lemma slice_roundings:
  "js_add (js_add 0 CYCLE_LIMIT) (js_mul (1 - 1 / 2 ^ 53) CYCLE_LIMIT) = 20000"
  "\<not> js_add (round64 (1 / 5)) TIME_LIMIT > round64 (5002 / 10)"
proof -
  show "js_add (js_add 0 CYCLE_LIMIT) (js_mul (1 - 1 / 2 ^ 53) CYCLE_LIMIT) = 20000"
    unfolding js_add_def js_mul_def CYCLE_LIMIT_def by (rule quota_rounds_up)
  show "\<not> js_add (round64 (1 / 5)) TIME_LIMIT > round64 (5002 / 10)"
    unfolding js_add_def TIME_LIMIT_def deadline_rounds by simp
qed

section \<open>The claims\<close>

text \<open>
  C4. From every state before the command (also with an error queued, also with a timeout
  pending), \<^verbatim>\<open>reset\<close> sets the counters to zero, clears the tree, the path, the program,
  the queued facts and the queued error, leaves no handle and cancels the timeout the
  handle named (between two events that is the only one), and posts \<^verbatim>\<open>reset\<close> with the
  zeroed counters. The state inferred afterwards is \<^verbatim>\<open>done\<close>, as for the module just
  loaded.
\<close>

theorem reset_total:
  fixes E :: "('cp, 'p, 'db, 'n, 'd) Env" and s :: "('p, 'db, 'n, 'd) Worker"
  shows "\<exists>s'. onmessage E A_reset s = Some s' \<and>
     stats s' = \<lparr>cycles = 0, deadEnds = 0\<rparr> \<and> tree s' = None \<and> path s' = [] \<and> program s' = None \<and>
     queuedFacts s' = None \<and> queuedError s' = None \<and> liveLoopHandle s' = None \<and>
     set (timers s') \<subseteq> set (timers s) \<and>
     (case liveLoopHandle s of None \<Rightarrow> True | Some h \<Rightarrow> h \<notin> set (timers s')) \<and>
     (reachable E s \<longrightarrow> timers s' = []) \<and>
     outbox s' = outbox s @ [W_reset \<lparr>cycles = 0, deadEnds = 0\<rparr>] \<and>
     inferState s' = S_done \<and> inferState s' = inferState (initial :: ('p, 'db, 'n, 'd) Worker)"
proof -
  let ?s' = "post (W_reset zeroStats)
     ((pause s)\<lparr>stats := zeroStats, tree := None, path := [], program := None,
        queuedFacts := None, queuedError := None\<rparr>)"
  have eq: "onmessage E A_reset s = Some ?s'"
    by (simp add: onmessage_def)
  have t: "timers ?s' = timers (pause s)"
    by (simp add: post_def)
  have "set (timers ?s') \<subseteq> set (timers s)"
    and "case liveLoopHandle s of None \<Rightarrow> True | Some h \<Rightarrow> h \<notin> set (timers ?s')"
    and "reachable E s \<longrightarrow> timers ?s' = []"
    unfolding t using reachable_pause_timers [of E s]
    by (auto simp: pause_timers split: option.splits)
  moreover have "stats ?s' = \<lparr>cycles = 0, deadEnds = 0\<rparr>" "tree ?s' = None" "path ?s' = []"
    "program ?s' = None" "queuedFacts ?s' = None" "queuedError ?s' = None" "liveLoopHandle ?s' = None"
    "outbox ?s' = outbox s @ [W_reset \<lparr>cycles = 0, deadEnds = 0\<rparr>]"
    by (simp_all add: post_def zeroStats_def)
  moreover have "inferState ?s' = S_done"
    "inferState ?s' = inferState (initial :: ('p, 'db, 'n, 'd) Worker)"
    by (simp_all add: inferState_def post_def initial_def)
  ultimately show ?thesis
    using eq by blast
qed

theorem reset_total_witness:
  "\<exists>s'. onmessage toyEnv A_reset initial = Some s' \<and> timers s' = [] \<and> inferState s' = S_done"
  using reset_total [of toyEnv initial] reachable.r_init [of toyEnv]
  by auto

text \<open>
  C5. When the inferred state is \<^verbatim>\<open>error\<close>, each of \<^verbatim>\<open>start\<close>, \<^verbatim>\<open>stop\<close> and
  \<^verbatim>\<open>status\<close> posts \<^verbatim>\<open>error\<close> with the queued message and the counters and changes
  nothing else: the resulting state is the old one with one more message posted. The
  inferred state stays \<^verbatim>\<open>error\<close>, no handle is set, and between two events no timeout
  is pending, so no slice can run either; the state is left only by \<^verbatim>\<open>load\<close> or
  \<^verbatim>\<open>reset\<close>.
\<close>

theorem error_echo:
  fixes E :: "('cp, 'p, 'db, 'n, 'd) Env" and s :: "('p, 'db, 'n, 'd) Worker"
  assumes "inferState s = S_error" and "ev \<in> {A_start, A_stop, A_status}"
  shows "\<exists>s'. onmessage E ev s = Some s' \<and>
     s' = s\<lparr>outbox := outbox s @ [W_error (stats s) (queuedError s)]\<rparr> \<and>
     queuedError s \<noteq> None \<and> queuedError s' = queuedError s \<and> queuedFacts s' = queuedFacts s \<and>
     stats s' = stats s \<and> tree s' = tree s \<and> path s' = path s \<and> program s' = program s \<and>
     liveLoopHandle s' = None \<and> timers s' = timers s \<and> inferState s' = S_error \<and>
     (reachable E s \<longrightarrow> timers s' = [] \<and> (\<forall>n h. fire n E h s' = None))"
proof -
  from assms(1) have idle: "liveLoopHandle s = None" and err: "queuedError s \<noteq> None"
    by (simp_all add: inferState_iff)
  let ?s' = "s\<lparr>outbox := outbox s @ [W_error (stats s) (queuedError s)]\<rparr>"
  from assms idle have eq: "onmessage E ev s = Some ?s'"
    by (auto simp: onmessage_def pause_idle resume_def post_def)
  have st: "inferState ?s' = S_error"
    using idle err by (simp add: inferState_iff)
  have "timers ?s' = [] \<and> (\<forall>n h. fire n E h ?s' = None)" if "reachable E s"
    using reachable_armed_ok [OF that] idle by (simp add: armed_ok_def fire_def)
  with eq st idle err show ?thesis
    by simp
qed

theorem error_echo_witness:
  "reachable toyEnv stuck \<and> inferState stuck = S_error \<and>
   A_status \<in> {A_start, A_stop, A_status :: nat AppToWorker} \<and>
   onmessage toyEnv A_status stuck =
     Some (stuck\<lparr>outbox := outbox stuck @ [W_error \<lparr>cycles = 1, deadEnds = 0\<rparr> (Some ''Error: stuck'')]\<rparr>) \<and>
   timers stuck = []"
proof -
  have h: "inferState stuck = S_error"
    by (simp add: inferState_iff stuck_def initial_def)
  have m: "A_status \<in> {A_start, A_stop, A_status :: nat AppToWorker}"
    by simp
  from error_echo [OF h m, of toyEnv] h reachable_stuck show ?thesis
    by (auto simp: stuck_def initial_def)
qed

text \<open>
  C6. \<^verbatim>\<open>status\<close> while the inferred state is \<^verbatim>\<open>running\<close> cancels the timeout the
  handle names, sets one new timeout, whose fresh handle is stored, and posts
  \<^verbatim>\<open>running\<close>; the counters, the tree, the path, the program, the queued facts and the
  queued error are as before and the engine is not called. Between two events the old
  timeout was the only one pending, and afterwards the new one is.
\<close>

theorem status_while_running:
  fixes E :: "('cp, 'p, 'db, 'n, 'd) Env" and s :: "('p, 'db, 'n, 'd) Worker"
  assumes "inferState s = S_running"
  shows "\<exists>h s'. liveLoopHandle s = Some h \<and> onmessage E A_status s = Some s' \<and>
     s' = s\<lparr>timers := removeAll h (timers s) @ [nextHandle s], nextHandle := Suc (nextHandle s),
            liveLoopHandle := Some (nextHandle s), outbox := outbox s @ [W_running (stats s)]\<rparr> \<and>
     h \<notin> set (removeAll h (timers s)) \<and>
     stats s' = stats s \<and> tree s' = tree s \<and> path s' = path s \<and> program s' = program s \<and>
     queuedFacts s' = queuedFacts s \<and> queuedError s' = queuedError s \<and> calls s' = calls s \<and>
     inferState s' = S_running \<and>
     (reachable E s \<longrightarrow> timers s = [h] \<and> timers s' = [nextHandle s] \<and> nextHandle s \<noteq> h)"
proof -
  from assms obtain h where h: "liveLoopHandle s = Some h"
    by (auto simp: inferState_iff)
  let ?s' = "s\<lparr>timers := removeAll h (timers s) @ [nextHandle s], nextHandle := Suc (nextHandle s),
            liveLoopHandle := Some (nextHandle s), outbox := outbox s @ [W_running (stats s)]\<rparr>"
  from h have eq: "onmessage E A_status s = Some ?s'"
    by (simp add: command_defs)
  have st: "inferState ?s' = S_running"
    by (simp add: inferState_iff)
  have "timers s = [h] \<and> timers ?s' = [nextHandle s] \<and> nextHandle s \<noteq> h" if "reachable E s"
    using reachable_armed_ok [OF that] h by (auto simp: armed_ok_def)
  with eq st h show ?thesis
    by simp
qed

theorem status_while_running_witness:
  "inferState started = S_running \<and> reachable toyEnv started \<and>
   onmessage toyEnv A_status started =
     Some (started\<lparr>timers := [1], nextHandle := 2, liveLoopHandle := Some 1,
             outbox := outbox started @ [W_running \<lparr>cycles = 0, deadEnds = 0\<rparr>]\<rparr>)"
proof -
  have h: "inferState started = S_running"
    by (simp add: inferState_iff started_def)
  from status_while_running [OF h, of toyEnv] h reachable_started show ?thesis
    by (auto simp: started_def initial_def zeroStats_def)
qed

text \<open>
  C1. The handler of every command first infers the state from the variables as they are
  then, with the priority: running if a handle is set, else error if an error is queued,
  else saturated if facts are queued, else done if the tree is null (as it is before any
  program is loaded), else paused. The inference is a function of the variables, so it gives
  exactly one of the five states, each characterised by the variables; \<^verbatim>\<open>status\<close>,
  \<^verbatim>\<open>start\<close> and \<^verbatim>\<open>stop\<close> act on that state, and \<^verbatim>\<open>status\<close> posts the message of
  that state.
\<close>

theorem state_inference:
  fixes E :: "('cp, 'p, 'db, 'n, 'd) Env" and s :: "('p, 'db, 'n, 'd) Worker"
  shows "inferState s =
       spec_state (liveLoopHandle s \<noteq> None) (queuedError s \<noteq> None) (queuedFacts s \<noteq> None) (tree s = None) \<and>
     (\<exists>!st. inferState s = st) \<and>
     (inferState s = S_running \<longleftrightarrow> liveLoopHandle s \<noteq> None) \<and>
     (inferState s = S_error \<longleftrightarrow> liveLoopHandle s = None \<and> queuedError s \<noteq> None) \<and>
     (inferState s = S_saturated \<longleftrightarrow>
        liveLoopHandle s = None \<and> queuedError s = None \<and> queuedFacts s \<noteq> None) \<and>
     (inferState s = S_done \<longleftrightarrow>
        liveLoopHandle s = None \<and> queuedError s = None \<and> queuedFacts s = None \<and> tree s = None) \<and>
     (inferState s = S_paused \<longleftrightarrow>
        liveLoopHandle s = None \<and> queuedError s = None \<and> queuedFacts s = None \<and> tree s \<noteq> None) \<and>
     onmessage E A_status s = resume E (inferState s) (pause s) \<and>
     onmessage E A_start s =
       resume E (if inferState s = S_paused then S_running else inferState s) (pause s) \<and>
     onmessage E A_stop s =
       resume E (if inferState s = S_running then S_paused else inferState s) (pause s) \<and>
     (\<exists>s'. onmessage E A_status s = Some s' \<and>
        last (outbox s') =
          (case inferState s of
             S_running \<Rightarrow> W_running (stats s)
           | S_error \<Rightarrow> W_error (stats s) (queuedError s)
           | S_saturated \<Rightarrow> W_saturated (stats s) (map (factToString E) (the (queuedFacts s))) (tree s = None)
           | S_done \<Rightarrow> W_done (stats s)
           | S_paused \<Rightarrow> W_paused (stats s)))"
proof -
  have a: "inferState s =
       spec_state (liveLoopHandle s \<noteq> None) (queuedError s \<noteq> None) (queuedFacts s \<noteq> None) (tree s = None)"
    by (simp add: inferState_def spec_state_def)
  have b: "\<exists>!st. inferState s = st"
    by simp
  have c: "onmessage E A_status s = resume E (inferState s) (pause s)"
    "onmessage E A_start s =
       resume E (if inferState s = S_paused then S_running else inferState s) (pause s)"
    "onmessage E A_stop s =
       resume E (if inferState s = S_running then S_paused else inferState s) (pause s)"
    by (simp_all add: onmessage_def)
  have d: "\<exists>s'. onmessage E A_status s = Some s' \<and>
        last (outbox s') =
          (case inferState s of
             S_running \<Rightarrow> W_running (stats s)
           | S_error \<Rightarrow> W_error (stats s) (queuedError s)
           | S_saturated \<Rightarrow> W_saturated (stats s) (map (factToString E) (the (queuedFacts s))) (tree s = None)
           | S_done \<Rightarrow> W_done (stats s)
           | S_paused \<Rightarrow> W_paused (stats s))"
  proof (cases "inferState s")
    case S_saturated
    then obtain fs where "queuedFacts s = Some fs"
      by (auto simp: inferState_iff)
    with S_saturated show ?thesis
      unfolding c(1) by (simp add: resume_def post_def)
  qed (simp_all add: c(1) resume_def post_def setTimeout_def)
  show ?thesis
    by (intro conjI) (rule a b c d inferState_iff)+
qed

theorem state_inference_witness:
  "inferState started = S_running \<and> inferState stuck = S_error \<and>
   inferState (initial :: (nat, nat, nat, nat) Worker) = S_done \<and>
   onmessage toyEnv A_status stuck = resume toyEnv S_error stuck"
proof -
  have "pause stuck = stuck"
    by (simp add: pause_def stuck_def initial_def)
  with state_inference [of started toyEnv] state_inference [of stuck toyEnv]
    state_inference [of "initial :: (nat, nat, nat, nat) Worker" toyEnv]
  show ?thesis
    by (simp add: spec_state_def started_def stuck_def initial_def)
qed

text \<open>
  C3. In the saturated state each of \<^verbatim>\<open>status\<close>, \<^verbatim>\<open>start\<close> and \<^verbatim>\<open>stop\<close> posts
  \<^verbatim>\<open>saturated\<close> and clears the queued facts, changing nothing else. Whenever a command
  posts \<^verbatim>\<open>saturated\<close>, it is one of these three in that state; the message holds the
  queued facts, each formatted by \<^verbatim>\<open>factToString\<close>, in their order, \<^verbatim>\<open>last\<close> is true
  exactly when the tree is null, and the counters are the current ones. Afterwards nothing
  is queued, and no later command posts \<^verbatim>\<open>saturated\<close> or finds facts queued as long as
  none are queued anew; a command queues an error only when a \<^verbatim>\<open>load\<close> fails, and a
  slice queues facts only when it returns with a solution and an error only when it caught
  one.
\<close>

theorem saturated_delivery:
  fixes E :: "('cp, 'p, 'db, 'n, 'd) Env" and s :: "('p, 'db, 'n, 'd) Worker"
  shows "(inferState s = S_saturated \<and> ev \<in> {A_status, A_start, A_stop} \<longrightarrow>
       (\<exists>qs. queuedFacts s = Some qs \<and>
          onmessage E ev s =
            Some (s\<lparr>queuedFacts := None,
                    outbox := outbox s @ [W_saturated (stats s) (map (factToString E) qs) (tree s = None)]\<rparr>))) \<and>
     (\<forall>s' st fs l. onmessage E ev s = Some s' \<and> last (outbox s') = W_saturated st fs l \<longrightarrow>
        ev \<in> {A_status, A_start, A_stop} \<and> inferState s = S_saturated \<and>
        (\<exists>qs. queuedFacts s = Some qs \<and> fs = map (factToString E) qs) \<and>
        (l \<longleftrightarrow> tree s = None) \<and> tree s' = tree s \<and> st = stats s \<and> stats s' = stats s \<and>
        outbox s' = outbox s @ [W_saturated st fs l] \<and>
        queuedFacts s' = None \<and> queuedError s' = None \<and>
        (\<forall>ev' t. onmessage E ev' s' = Some t \<longrightarrow>
           queuedFacts t = None \<and> \<not> is_saturated (last (outbox t)) \<and>
           (queuedError t \<noteq> None \<longrightarrow> (\<exists>cp e. ev' = A_load cp \<and> makeInitialDb E cp = Inl e))) \<and>
        (\<forall>n x t. cycle_run n E s' = Some (x, t) \<longrightarrow>
           (queuedFacts t \<noteq> None \<longrightarrow> x = Solution) \<and> (queuedError t \<noteq> None \<longrightarrow> x = Caught)))"
proof (intro conjI impI allI)
  assume "inferState s = S_saturated \<and> ev \<in> {A_status, A_start, A_stop}"
  then show "\<exists>qs. queuedFacts s = Some qs \<and>
          onmessage E ev s =
            Some (s\<lparr>queuedFacts := None,
                    outbox := outbox s @ [W_saturated (stats s) (map (factToString E) qs) (tree s = None)]\<rparr>)"
    using saturated_step [of s ev E] by blast
next
  fix s' st fs l
  assume a: "onmessage E ev s = Some s' \<and> last (outbox s') = W_saturated st fs l"
  then have ev: "ev \<in> {A_status, A_start, A_stop}" and sat: "inferState s = S_saturated"
    using onmessage_saturated [of E ev s s' st fs l] by simp_all
  from saturated_step [OF sat ev, of E] obtain qs where q: "queuedFacts s = Some qs"
    and eq: "onmessage E ev s =
       Some (s\<lparr>queuedFacts := None,
               outbox := outbox s @ [W_saturated (stats s) (map (factToString E) qs) (tree s = None)]\<rparr>)"
    by blast
  from a eq have s': "s' = s\<lparr>queuedFacts := None,
               outbox := outbox s @ [W_saturated (stats s) (map (factToString E) qs) (tree s = None)]\<rparr>"
    by simp
  from a s' have m: "st = stats s" "fs = map (factToString E) qs" "l \<longleftrightarrow> tree s = None"
    by simp_all
  from sat have noerr: "queuedError s = None"
    by (simp add: inferState_iff)
  have post: "queuedFacts s' = None" "queuedError s' = None"
    using s' noerr by simp_all
  show "ev \<in> {A_status, A_start, A_stop}" by (rule ev)
  show "inferState s = S_saturated" by (rule sat)
  show "\<exists>qs. queuedFacts s = Some qs \<and> fs = map (factToString E) qs"
    using q m by blast
  show "l \<longleftrightarrow> tree s = None" by (rule m)
  show "tree s' = tree s" "stats s' = stats s" using s' by simp_all
  show "st = stats s" by (rule m)
  show "outbox s' = outbox s @ [W_saturated st fs l]" using s' m by simp
  show "queuedFacts s' = None" "queuedError s' = None" by (rule post)+
  {
    fix ev' t
    assume t: "onmessage E ev' s' = Some t"
    show "queuedFacts t = None" "\<not> is_saturated (last (outbox t))"
      using onmessage_no_facts [OF t post(1)] by simp_all
    assume "queuedError t \<noteq> None"
    then show "\<exists>cp e. ev' = A_load cp \<and> makeInitialDb E cp = Inl e"
      using onmessage_new_error [OF t post(2)] by blast
  }
  {
    fix n x t
    assume r: "cycle_run n E s' = Some (x, t)"
    {
      assume "queuedFacts t \<noteq> None"
      then show "x = Solution"
        using cycle_run_pending [OF r] post by (cases x) simp_all
    }
    {
      assume "queuedError t \<noteq> None"
      then show "x = Caught"
        using cycle_run_pending [OF r] post by (cases x) simp_all
    }
  }
qed

theorem saturated_delivery_witness:
  "inferState solved = S_saturated \<and> A_status \<in> {A_status, A_start, A_stop :: nat AppToWorker} \<and>
   onmessage toyEnv A_status solved =
     Some (solved\<lparr>queuedFacts := None,
             outbox := outbox solved @ [W_saturated \<lparr>cycles = 1, deadEnds = 0\<rparr> [''p'', ''p'', ''q''] True]\<rparr>) \<and>
   reachable toyEnv solved"
proof -
  have h: "inferState solved = S_saturated \<and> A_status \<in> {A_status, A_start, A_stop :: nat AppToWorker}"
    by (simp add: inferState_iff solved_def initial_def)
  have q: "queuedFacts solved = Some [\<lparr>name = ''p'', args = [1], val = 2\<rparr>,
      \<lparr>name = ''p'', args = [3], val = 4\<rparr>, \<lparr>name = ''q'', args = [], val = 5\<rparr>]"
    and m: "stats solved = \<lparr>cycles = 1, deadEnds = 0\<rparr>" "tree solved = None"
    "map (factToString toyEnv) [\<lparr>name = ''p'', args = [1], val = 2\<rparr>,
      \<lparr>name = ''p'', args = [3], val = 4\<rparr>, \<lparr>name = ''q'', args = [], val = 5\<rparr>] = [''p'', ''p'', ''q'']"
    by (simp_all add: solved_def initial_def toyEnv_def)
  from saturated_delivery [THEN conjunct1, rule_format, of solved A_status toyEnv, OF h]
  obtain qs where "queuedFacts solved = Some qs"
    and "onmessage toyEnv A_status solved =
       Some (solved\<lparr>queuedFacts := None,
         outbox := outbox solved @ [W_saturated (stats solved) (map (factToString toyEnv) qs) (tree solved = None)]\<rparr>)"
    by blast
  with q m h reachable_solved show ?thesis
    by simp
qed

text \<open>
  C10. Between two events, whenever a handle is set (a slice is scheduled), no facts and no
  error are queued, so the running branch of the inference hides neither. A slice that
  queues facts or an error returns false, and \<^verbatim>\<open>liveLoop\<close> then leaves no handle; a
  command sets a handle only on \<^verbatim>\<open>start\<close> in the paused state or on \<^verbatim>\<open>start\<close> or
  \<^verbatim>\<open>status\<close> in the running state.
\<close>

theorem armed_nothing_queued:
  fixes E :: "('cp, 'p, 'db, 'n, 'd) Env" and s :: "('p, 'db, 'n, 'd) Worker"
  shows "(reachable E s \<and> liveLoopHandle s \<noteq> None \<longrightarrow> queuedFacts s = None \<and> queuedError s = None) \<and>
     (reachable E s \<and> inferState s = S_running \<longrightarrow> queuedFacts s = None \<and> queuedError s = None) \<and>
     (\<forall>n b s'. cycle n E s = Some (b, s') \<and>
        (queuedFacts s' \<noteq> queuedFacts s \<or> queuedError s' \<noteq> queuedError s) \<longrightarrow> \<not> b) \<and>
     (\<forall>n s'. liveLoop n E s = Some s' \<and>
        (queuedFacts s' \<noteq> queuedFacts s \<or> queuedError s' \<noteq> queuedError s) \<longrightarrow>
        liveLoopHandle s' = None) \<and>
     (\<forall>ev s'. onmessage E ev s = Some s' \<and> liveLoopHandle s' \<noteq> None \<longrightarrow>
        ev = A_start \<and> inferState s = S_paused \<or>
        ev \<in> {A_start, A_status} \<and> inferState s = S_running)"
proof -
  have a: "queuedFacts s = None \<and> queuedError s = None" if "reachable E s" "liveLoopHandle s \<noteq> None"
    using reachable_armed_ok [OF that(1)] that(2) by (simp add: armed_ok_def)
  show ?thesis
    using a cycle_queues [of _ E s] liveLoop_queues [of _ E s] onmessage_arms [of E _ s]
    by (simp only: inferState_iff) blast
qed

theorem armed_nothing_queued_witness:
  "reachable toyEnv started \<and> liveLoopHandle started \<noteq> None \<and>
   queuedFacts started = None \<and> queuedError started = None"
proof -
  have h: "liveLoopHandle started \<noteq> None"
    by (simp add: started_def)
  from armed_nothing_queued [of toyEnv started] reachable_started h show ?thesis
    by blast
qed

text \<open>
  C7. \<^verbatim>\<open>load\<close> sets the counters to zero, empties the path, stores the new program and
  clears the queued facts and the queued error. When \<^verbatim>\<open>makeInitialDb\<close> returns a
  database, the tree becomes the leaf of that database and \<^verbatim>\<open>paused\<close> is posted. When it
  throws, the message is queued as the error and \<^verbatim>\<open>error\<close> is posted, but the tree is
  not touched: the tree of the program loaded before stays, next to the new program and
  the emptied path, where \<^verbatim>\<open>reset\<close> sets it to null.
\<close>

theorem load_keeps_tree_on_failure:
  fixes E :: "('cp, 'p, 'db, 'n, 'd) Env" and s :: "('p, 'db, 'n, 'd) Worker"
  shows "(\<forall>db. makeInitialDb E cp = Inr db \<longrightarrow>
        (\<exists>s'. onmessage E (A_load cp) s = Some s' \<and>
           stats s' = \<lparr>cycles = 0, deadEnds = 0\<rparr> \<and> path s' = [] \<and>
           program s' = Some (program_of E cp) \<and> queuedFacts s' = None \<and> queuedError s' = None \<and>
           tree s' = Some (leaf db) \<and> liveLoopHandle s' = None \<and>
           outbox s' = outbox s @ [W_paused \<lparr>cycles = 0, deadEnds = 0\<rparr>] \<and>
           inferState s' = S_paused)) \<and>
     (\<forall>e. makeInitialDb E cp = Inl e \<longrightarrow>
        (\<exists>s'. onmessage E (A_load cp) s = Some s' \<and>
           stats s' = \<lparr>cycles = 0, deadEnds = 0\<rparr> \<and> path s' = [] \<and>
           program s' = Some (program_of E cp) \<and> queuedFacts s' = None \<and> queuedError s' = Some e \<and>
           tree s' = tree s \<and> liveLoopHandle s' = None \<and>
           outbox s' = outbox s @ [W_error \<lparr>cycles = 0, deadEnds = 0\<rparr> (Some e)] \<and>
           inferState s' = S_error))"
proof (intro conjI allI impI)
  fix db
  assume "makeInitialDb E cp = Inr db"
  from load_succeeds [OF this, of s] show "\<exists>s'. onmessage E (A_load cp) s = Some s' \<and>
           stats s' = \<lparr>cycles = 0, deadEnds = 0\<rparr> \<and> path s' = [] \<and>
           program s' = Some (program_of E cp) \<and> queuedFacts s' = None \<and> queuedError s' = None \<and>
           tree s' = Some (leaf db) \<and> liveLoopHandle s' = None \<and>
           outbox s' = outbox s @ [W_paused \<lparr>cycles = 0, deadEnds = 0\<rparr>] \<and>
           inferState s' = S_paused"
    by (simp add: zeroStats_def inferState_iff)
next
  fix e
  assume "makeInitialDb E cp = Inl e"
  from load_fails [OF this, of s] show "\<exists>s'. onmessage E (A_load cp) s = Some s' \<and>
           stats s' = \<lparr>cycles = 0, deadEnds = 0\<rparr> \<and> path s' = [] \<and>
           program s' = Some (program_of E cp) \<and> queuedFacts s' = None \<and> queuedError s' = Some e \<and>
           tree s' = tree s \<and> liveLoopHandle s' = None \<and>
           outbox s' = outbox s @ [W_error \<lparr>cycles = 0, deadEnds = 0\<rparr> (Some e)] \<and>
           inferState s' = S_error"
    by (simp add: zeroStats_def inferState_iff)
qed

theorem load_keeps_tree_on_failure_witness:
  "onmessage toyEnv (A_load 3) initial = Some loaded \<and>
   makeInitialDb toyEnv 99 = Inl ''Error: no such program'' \<and> tree loaded = Some (leaf 3) \<and>
   (\<exists>s'. onmessage toyEnv (A_load 99) loaded = Some s' \<and> tree s' = Some (leaf 3) \<and>
      program s' = Some 99 \<and> path s' = [] \<and> inferState s' = S_error)"
proof -
  have h: "makeInitialDb toyEnv 99 = Inl ''Error: no such program''"
    by (simp add: toyEnv_def)
  have t: "tree loaded = Some (leaf 3)" "program_of toyEnv 99 = 99"
    by (simp_all add: loaded_def initial_def toyEnv_def)
  from load_keeps_tree_on_failure [THEN conjunct2, rule_format, OF h, of loaded] h t toy_loaded
  show ?thesis
    by auto
qed

text \<open>
  C9. On entry a slice draws one random number and computes its quota as the counter of
  steps plus \<open>CYCLE_LIMIT\<close> (10000) plus a jitter, the product of the random number and
  \<open>CYCLE_LIMIT\<close>; sums and product are those of JavaScript numbers. The random number
  being a double in \<open>[0, 1)\<close>, the jitter lies in \<open>[0, 10000)\<close>. The slice reads the clock
  once, and its deadline is that entry time plus \<open>TIME_LIMIT\<close> (500). The loop runs under
  this quota and this entry time: an iteration whose state has the counter below the quota
  and a clock reading before the deadline goes on, calls the engine and, unless the step
  ends the slice, is followed by the next iteration; otherwise the loop ends there, before
  any call of the engine. So the engine is called from a loop state on only if the counter
  was below the quota and the clock before the deadline in that state. While the counter is
  an integer from 0 to \<open>2\<^sup>5\<^sup>3 - 10000\<close> its sum with 10000 is exact, and the quota is the
  double nearest to the counter plus 10000 plus the jitter.
\<close>

theorem slice_budget:
  fixes E :: "('cp, 'p, 'db, 'n, 'd) Env" and s :: "('p, 'db, 'n, 'd) Worker"
  assumes "round64 (Math_random E (draws s)) = Math_random E (draws s)"
    and "0 \<le> Math_random E (draws s)" and "Math_random E (draws s) < 1"
  shows "CYCLE_LIMIT = 10000 \<and> TIME_LIMIT = 500 \<and>
     js_mul (Math_random E (draws s)) CYCLE_LIMIT = round64 (Math_random E (draws s) * 10000) \<and>
     0 \<le> js_mul (Math_random E (draws s)) CYCLE_LIMIT \<and>
     js_mul (Math_random E (draws s)) CYCLE_LIMIT < CYCLE_LIMIT \<and>
     cycle_limit E s =
       js_add (js_add (real_of_int (cycles (stats s))) CYCLE_LIMIT)
         (js_mul (Math_random E (draws s)) CYCLE_LIMIT) \<and>
     cycle_limit E s =
       round64 (round64 (real_of_int (cycles (stats s)) + 10000) + round64 (Math_random E (draws s) * 10000)) \<and>
     cycle_start E s = performance_now E (ticks s) \<and>
     js_add (cycle_start E s) TIME_LIMIT = round64 (performance_now E (ticks s) + 500) \<and>
     cycle_run n E s =
       cycle_loop n E (cycle_limit E s) (cycle_start E s) (s\<lparr>draws := Suc (draws s), ticks := Suc (ticks s)\<rparr>) \<and>
     (\<forall>m t. \<not> real_of_int (cycles (stats t)) < cycle_limit E s \<longrightarrow>
        cycle_loop (Suc m) E (cycle_limit E s) (cycle_start E s) t = Some (LoopEnd, t)) \<and>
     (\<forall>m t. real_of_int (cycles (stats t)) < cycle_limit E s \<and>
        \<not> performance_now E (ticks t) < js_add (cycle_start E s) TIME_LIMIT \<longrightarrow>
        cycle_loop (Suc m) E (cycle_limit E s) (cycle_start E s) t =
          Some (LoopEnd, t\<lparr>ticks := Suc (ticks t)\<rparr>)) \<and>
     (\<forall>m t tr line r c.
        real_of_int (cycles (stats t)) < cycle_limit E s \<and>
        performance_now E (ticks t) < js_add (cycle_start E s) TIME_LIMIT \<and>
        tree t = Some tr \<and> pathToString E tr (path t) = Inr line \<and>
        stepTreeRandomDFS E (program t) tr (path t) (stats t) (calls t) = (Inr r, c) \<and>
        r_solution r = None \<longrightarrow>
        cycle_loop (Suc m) E (cycle_limit E s) (cycle_start E s) t =
          cycle_loop m E (cycle_limit E s) (cycle_start E s)
            (t\<lparr>ticks := Suc (ticks t), console := console t @ [line], stats := c,
               calls := Suc (calls t), tree := r_tree r,
               path := (if r_tree r = None then path t else r_path r)\<rparr>)) \<and>
     (\<forall>m t x t'. cycle_loop m E (cycle_limit E s) (cycle_start E s) t = Some (x, t') \<and>
        calls t' \<noteq> calls t \<longrightarrow>
        real_of_int (cycles (stats t)) < cycle_limit E s \<and>
        performance_now E (ticks t) < js_add (cycle_start E s) TIME_LIMIT) \<and>
     (0 \<le> cycles (stats s) \<and> cycles (stats s) \<le> 2 ^ 53 - 10000 \<longrightarrow>
        cycle_limit E s =
          round64 (real_of_int (cycles (stats s)) + 10000 + js_mul (Math_random E (draws s)) CYCLE_LIMIT))"
proof -
  note j = jitter_bound [OF assms]
  have 1: "js_mul (Math_random E (draws s)) CYCLE_LIMIT = round64 (Math_random E (draws s) * 10000)"
    by (simp add: js_mul_def CYCLE_LIMIT_def)
  have 2: "0 \<le> js_mul (Math_random E (draws s)) CYCLE_LIMIT"
    "js_mul (Math_random E (draws s)) CYCLE_LIMIT < CYCLE_LIMIT"
    unfolding 1 using j by (simp_all add: CYCLE_LIMIT_def)
  have 3: "cycle_limit E s =
       js_add (js_add (real_of_int (cycles (stats s))) CYCLE_LIMIT)
         (js_mul (Math_random E (draws s)) CYCLE_LIMIT)"
    "cycle_limit E s =
       round64 (round64 (real_of_int (cycles (stats s)) + 10000) + round64 (Math_random E (draws s) * 10000))"
    by (simp_all add: cycle_limit_def js_add_def js_mul_def CYCLE_LIMIT_def)
  have 4: "cycle_start E s = performance_now E (ticks s)"
    "js_add (cycle_start E s) TIME_LIMIT = round64 (performance_now E (ticks s) + 500)"
    by (simp_all add: cycle_start_def js_add_def TIME_LIMIT_def)
  have 5: "cycle_run n E s =
       cycle_loop n E (cycle_limit E s) (cycle_start E s) (s\<lparr>draws := Suc (draws s), ticks := Suc (ticks s)\<rparr>)"
    by (simp add: cycle_run_def)
  show ?thesis
    apply (intro conjI allI impI)
                 apply (simp add: CYCLE_LIMIT_def)
                apply (simp add: TIME_LIMIT_def)
               apply (rule 1)
              apply (rule 2)
             apply (rule 2)
            apply (rule 3)
           apply (rule 3)
          apply (rule 4)
         apply (rule 4)
        apply (rule 5)
       apply (erule loop_quota_reached)
      apply (elim conjE, erule (1) loop_deadline_reached)
     apply (elim conjE, erule (5) loop_continues)
    apply (elim conjE, drule (1) loop_stepped, simp)
   apply (elim conjE, drule (1) loop_stepped, simp)
  apply (elim conjE, simp add: cycle_limit_def js_add_def CYCLE_LIMIT_def round64_counter)
  done
qed

theorem slice_budget_witness:
  "round64 (Math_random toyEnv (draws started)) = Math_random toyEnv (draws started) \<and>
   0 \<le> Math_random toyEnv (draws started) \<and> Math_random toyEnv (draws started) < 1 \<and>
   js_mul (Math_random toyEnv (draws started)) CYCLE_LIMIT = 5000 \<and>
   cycle_limit toyEnv started = 15000 \<and> js_add (cycle_start toyEnv started) TIME_LIMIT = 500"
proof -
  have h: "round64 (Math_random toyEnv (draws started)) = Math_random toyEnv (draws started)"
    "0 \<le> Math_random toyEnv (draws started)" "Math_random toyEnv (draws started) < 1"
    by (simp_all add: toyEnv_def round64_half)
  have v: "Math_random toyEnv (draws started) * 10000 = 5000" "cycles (stats started) = 0"
    "performance_now toyEnv (ticks started) = 0"
    by (simp_all add: toyEnv_def started_def initial_def zeroStats_def)
  note sb = slice_budget [OF h, of 0]
  note a = sb [THEN conjunct2, THEN conjunct2, THEN conjunct1]
  note b = sb [THEN conjunct2, THEN conjunct2, THEN conjunct2, THEN conjunct2, THEN conjunct2,
    THEN conjunct2, THEN conjunct1]
  note c = sb [THEN conjunct2, THEN conjunct2, THEN conjunct2, THEN conjunct2, THEN conjunct2,
    THEN conjunct2, THEN conjunct2, THEN conjunct2, THEN conjunct1]
  have a': "js_mul (Math_random toyEnv (draws started)) CYCLE_LIMIT = 5000"
    unfolding a v by simp
  have b': "cycle_limit toyEnv started = 15000"
    unfolding b v by simp
  have c': "js_add (cycle_start toyEnv started) TIME_LIMIT = 500"
    unfolding c v by simp
  from h a' b' c' show ?thesis
    by (intro conjI)
qed

text \<open>
  C2, as stated, fails: \<^verbatim>\<open>cycle\<close> looks at the tree only at the top of an iteration, so
  when the step that exhausts the search is also the last one the quota or the deadline
  allows, the loop ends through its condition and \<^verbatim>\<open>cycle\<close> returns true with the tree
  null. On the small engine the first slice of program 3 does so.
\<close>

theorem cycle_true_exhausted:
  "cycle (Suc (Suc (Suc 0))) toyEnv (clearTimeout 0 started) = Some (True, spent) \<and>
   tree spent = None \<and> queuedFacts spent = None \<and> queuedError spent = None"
  using toy_slice by (simp add: cycle_def spent_def started_def initial_def)

text \<open>
  C2, amended. \<^verbatim>\<open>cycle\<close> returns once the clock has reached the deadline, and its value
  classifies the outcome: it is true if and only if the loop ended through its condition
  (the counter reached the quota or the clock the deadline), and then the slice queued no
  facts and no error, whether the tree is still there or not. It is false when something
  thrown was caught, the message then being the queued error; when a step reported a
  solution, its flattened facts then being the queued facts; and when the tree was null at
  the top of an iteration. From a state whose tree is null the engine is not called again.

  The second half of the statement follows one iteration through each of its branches, from
  any loop state \<open>t\<close>: the condition fails on the quota, or on the deadline; the tree is null;
  printing the path throws; the step throws; the step reports a solution; the step reports
  none, and the next iteration follows.
\<close>

theorem cycle_classifies:
  fixes E :: "('cp, 'p, 'db, 'n, 'd) Env" and s :: "('p, 'db, 'n, 'd) Worker"
  shows "(\<forall>k. \<not> performance_now E (Suc (ticks s) + k) < js_add (cycle_start E s) TIME_LIMIT \<longrightarrow>
        cycle (Suc k) E s \<noteq> None) \<and>
     cycle_run n E s =
       cycle_loop n E (cycle_limit E s) (cycle_start E s) (s\<lparr>draws := Suc (draws s), ticks := Suc (ticks s)\<rparr>) \<and>
     (\<forall>x s'. cycle_run n E s = Some (x, s') \<longrightarrow>
        cycle n E s = Some (returned x, s') \<and>
        (returned x \<longleftrightarrow> x = LoopEnd) \<and>
        (x = LoopEnd \<longrightarrow>
           (\<not> real_of_int (cycles (stats s')) < cycle_limit E s \<or>
            \<not> performance_now E (ticks s' - 1) < js_add (cycle_start E s) TIME_LIMIT) \<and>
           queuedFacts s' = queuedFacts s \<and> queuedError s' = queuedError s) \<and>
        (x = Caught \<longrightarrow> (\<exists>e. queuedError s' = Some e) \<and> queuedFacts s' = queuedFacts s) \<and>
        (x = Solution \<longrightarrow>
           (\<exists>sol. queuedFacts s' = Some (flattenFacts (facts_of E sol))) \<and>
           queuedError s' = queuedError s) \<and>
        (x = TreeNull \<longrightarrow>
           tree s' = None \<and> queuedFacts s' = queuedFacts s \<and> queuedError s' = queuedError s) \<and>
        (tree s = None \<longrightarrow> calls s' = calls s \<and> stats s' = stats s \<and> (x = TreeNull \<or> x = LoopEnd))) \<and>
     (cycle_run n E s = None \<longrightarrow> cycle n E s = None) \<and>
     (\<forall>m l st t. \<not> real_of_int (cycles (stats t)) < l \<longrightarrow>
        cycle_loop (Suc m) E l st t = Some (LoopEnd, t)) \<and>
     (\<forall>m l st t.
        real_of_int (cycles (stats t)) < l \<and> \<not> performance_now E (ticks t) < js_add st TIME_LIMIT \<longrightarrow>
        cycle_loop (Suc m) E l st t = Some (LoopEnd, t\<lparr>ticks := Suc (ticks t)\<rparr>)) \<and>
     (\<forall>m l st t.
        real_of_int (cycles (stats t)) < l \<and> performance_now E (ticks t) < js_add st TIME_LIMIT \<and>
        tree t = None \<longrightarrow>
        cycle_loop (Suc m) E l st t = Some (TreeNull, t\<lparr>ticks := Suc (ticks t)\<rparr>)) \<and>
     (\<forall>m l st t tr e.
        real_of_int (cycles (stats t)) < l \<and> performance_now E (ticks t) < js_add st TIME_LIMIT \<and>
        tree t = Some tr \<and> pathToString E tr (path t) = Inl e \<longrightarrow>
        cycle_loop (Suc m) E l st t =
          Some (Caught, t\<lparr>ticks := Suc (ticks t), queuedError := Some e\<rparr>)) \<and>
     (\<forall>m l st t tr line e c.
        real_of_int (cycles (stats t)) < l \<and> performance_now E (ticks t) < js_add st TIME_LIMIT \<and>
        tree t = Some tr \<and> pathToString E tr (path t) = Inr line \<and>
        stepTreeRandomDFS E (program t) tr (path t) (stats t) (calls t) = (Inl e, c) \<longrightarrow>
        cycle_loop (Suc m) E l st t =
          Some (Caught, t\<lparr>ticks := Suc (ticks t), console := console t @ [line], stats := c,
                          calls := Suc (calls t), queuedError := Some e\<rparr>)) \<and>
     (\<forall>m l st t tr line r c sol.
        real_of_int (cycles (stats t)) < l \<and> performance_now E (ticks t) < js_add st TIME_LIMIT \<and>
        tree t = Some tr \<and> pathToString E tr (path t) = Inr line \<and>
        stepTreeRandomDFS E (program t) tr (path t) (stats t) (calls t) = (Inr r, c) \<and>
        r_solution r = Some sol \<longrightarrow>
        cycle_loop (Suc m) E l st t =
          Some (Solution, t\<lparr>ticks := Suc (ticks t), console := console t @ [line], stats := c,
                            calls := Suc (calls t), tree := r_tree r,
                            path := (if r_tree r = None then path t else r_path r),
                            queuedFacts := Some (flattenFacts (facts_of E sol))\<rparr>)) \<and>
     (\<forall>m l st t tr line r c.
        real_of_int (cycles (stats t)) < l \<and> performance_now E (ticks t) < js_add st TIME_LIMIT \<and>
        tree t = Some tr \<and> pathToString E tr (path t) = Inr line \<and>
        stepTreeRandomDFS E (program t) tr (path t) (stats t) (calls t) = (Inr r, c) \<and>
        r_solution r = None \<longrightarrow>
        cycle_loop (Suc m) E l st t =
          cycle_loop m E l st
            (t\<lparr>ticks := Suc (ticks t), console := console t @ [line], stats := c,
               calls := Suc (calls t), tree := r_tree r,
               path := (if r_tree r = None then path t else r_path r)\<rparr>)) \<and>
     (\<forall>m l st t y t'. cycle_loop m E l st t = Some (y, t') \<and> tree t = None \<longrightarrow>
        calls t' = calls t \<and> (y = TreeNull \<or> y = LoopEnd))"
proof -
  have A: "\<forall>k. \<not> performance_now E (Suc (ticks s) + k) < js_add (cycle_start E s) TIME_LIMIT \<longrightarrow>
        cycle (Suc k) E s \<noteq> None"
  proof (intro allI impI)
    fix k
    assume "\<not> performance_now E (Suc (ticks s) + k) < js_add (cycle_start E s) TIME_LIMIT"
    then have "cycle_run (Suc k) E s \<noteq> None"
      by (intro cycle_run_returns) simp
    then show "cycle (Suc k) E s \<noteq> None"
      by (simp add: cycle_def)
  qed
  have B: "cycle_run n E s =
       cycle_loop n E (cycle_limit E s) (cycle_start E s) (s\<lparr>draws := Suc (draws s), ticks := Suc (ticks s)\<rparr>)"
    by (simp add: cycle_run_def)
  have C: "\<forall>x s'. cycle_run n E s = Some (x, s') \<longrightarrow>
        cycle n E s = Some (returned x, s') \<and>
        (returned x \<longleftrightarrow> x = LoopEnd) \<and>
        (x = LoopEnd \<longrightarrow>
           (\<not> real_of_int (cycles (stats s')) < cycle_limit E s \<or>
            \<not> performance_now E (ticks s' - 1) < js_add (cycle_start E s) TIME_LIMIT) \<and>
           queuedFacts s' = queuedFacts s \<and> queuedError s' = queuedError s) \<and>
        (x = Caught \<longrightarrow> (\<exists>e. queuedError s' = Some e) \<and> queuedFacts s' = queuedFacts s) \<and>
        (x = Solution \<longrightarrow>
           (\<exists>sol. queuedFacts s' = Some (flattenFacts (facts_of E sol))) \<and>
           queuedError s' = queuedError s) \<and>
        (x = TreeNull \<longrightarrow>
           tree s' = None \<and> queuedFacts s' = queuedFacts s \<and> queuedError s' = queuedError s) \<and>
        (tree s = None \<longrightarrow> calls s' = calls s \<and> stats s' = stats s \<and> (x = TreeNull \<or> x = LoopEnd))"
  proof (intro allI impI conjI)
    fix x s'
    assume r: "cycle_run n E s = Some (x, s')"
    then show "cycle n E s = Some (returned x, s')"
      by (simp add: cycle_def)
    show "returned x \<longleftrightarrow> x = LoopEnd"
      by (cases x) simp_all
    note pe = cycle_run_pending [OF r]
    {
      assume x: "x = LoopEnd"
      from r x show "\<not> real_of_int (cycles (stats s')) < cycle_limit E s \<or>
            \<not> performance_now E (ticks s' - 1) < js_add (cycle_start E s) TIME_LIMIT"
        unfolding cycle_run_def by (auto dest: cycle_loop_end)
      from pe x show "queuedFacts s' = queuedFacts s" "queuedError s' = queuedError s"
        by simp_all
    }
    {
      assume x: "x = Caught"
      from pe x show "\<exists>e. queuedError s' = Some e" "queuedFacts s' = queuedFacts s"
        by simp_all
    }
    {
      assume x: "x = Solution"
      from pe x show "\<exists>sol. queuedFacts s' = Some (flattenFacts (facts_of E sol))"
        "queuedError s' = queuedError s"
        by simp_all
    }
    {
      assume x: "x = TreeNull"
      from pe x show "tree s' = None" "queuedFacts s' = queuedFacts s" "queuedError s' = queuedError s"
        by simp_all
    }
    {
      assume "tree s = None"
      with r show "calls s' = calls s" "stats s' = stats s" "x = TreeNull \<or> x = LoopEnd"
        unfolding cycle_run_def by (auto dest: cycle_loop_exhausted)
    }
  qed
  have D: "cycle_run n E s = None \<longrightarrow> cycle n E s = None"
    by (simp add: cycle_def)
  have F: "\<forall>m l st y. \<forall>t t' :: ('p, 'db, 'n, 'd) Worker.
        cycle_loop m E l st t = Some (y, t') \<and> tree t = None \<longrightarrow>
        calls t' = calls t \<and> (y = TreeNull \<or> y = LoopEnd)"
    by (auto dest: cycle_loop_exhausted)
  show ?thesis
    apply (rule conjI [OF A])
    apply (rule conjI [OF B])
    apply (rule conjI [OF C])
    apply (rule conjI [OF D])
    apply (intro conjI allI impI)
           apply (erule loop_quota_reached)
          apply (elim conjE, erule (1) loop_deadline_reached)
         apply (elim conjE, erule (2) loop_tree_null)
        apply (elim conjE, erule (3) loop_print_throws)
       apply (elim conjE, erule (4) loop_step_throws)
      apply (elim conjE, erule (5) loop_solution)
     apply (elim conjE, erule (5) loop_continues)
    using F apply blast
    using F apply blast
    done
qed

theorem cycle_classifies_witness:
  "cycle_run (Suc (Suc (Suc 0))) toyEnv (clearTimeout 0 started) = Some (LoopEnd, spent) \<and>
   cycle (Suc (Suc (Suc 0))) toyEnv (clearTimeout 0 started) = Some (returned LoopEnd, spent) \<and>
   queuedFacts spent = queuedFacts (clearTimeout 0 started) \<and>
   queuedError spent = queuedError (clearTimeout 0 started)"
proof -
  note c = cycle_classifies [where s = "clearTimeout 0 started" and E = toyEnv and n = "Suc (Suc (Suc 0))",
      THEN conjunct2, THEN conjunct2, THEN conjunct1, rule_format, OF toy_slice]
  from c have "cycle (Suc (Suc (Suc 0))) toyEnv (clearTimeout 0 started) = Some (returned LoopEnd, spent)"
    by (rule conjunct1)
  moreover from c have "queuedFacts spent = queuedFacts (clearTimeout 0 started)"
    "queuedError spent = queuedError (clearTimeout 0 started)"
    by simp_all
  ultimately show ?thesis
    using toy_slice by (intro conjI)
qed

text \<open>
  C8, as stated, fails: \<^verbatim>\<open>load\<close> never leaves an exhausted search, it builds the leaf of
  the initial database, and exhaustion is found by stepping. On the small engine program 0
  is exhausted by its first step: \<^verbatim>\<open>load\<close> posts \<^verbatim>\<open>paused\<close>, and after \<^verbatim>\<open>start\<close>
  the slice calls the engine once and leaves the state \<^verbatim>\<open>done\<close> with the counters at
  one step and one dead end.
\<close>

theorem exhausted_program_steps_once:
  "onmessage toyEnv (A_load 0) initial = Some loaded0 \<and> tree loaded0 = Some (leaf 0) \<and>
   last (outbox loaded0) = W_paused \<lparr>cycles = 0, deadEnds = 0\<rparr> \<and>
   onmessage toyEnv A_start loaded0 = Some started0 \<and> calls started0 = 0 \<and>
   stats started0 = \<lparr>cycles = 0, deadEnds = 0\<rparr> \<and>
   fire (Suc (Suc 0)) toyEnv 0 started0 = Some done0 \<and> inferState done0 = S_done \<and>
   calls done0 = 1 \<and> stats done0 = \<lparr>cycles = 1, deadEnds = 1\<rparr>"
  using toy0_load toy0_start toy0_fire
  by (simp add: loaded0_def started0_def done0_def initial_def zeroStats_def inferState_iff)

text \<open>
  C8, amended. \<^verbatim>\<open>load\<close> of a program that has an initial database leaves the leaf of
  that database as the tree and posts \<^verbatim>\<open>paused\<close> with zero counters; \<^verbatim>\<open>start\<close> then
  posts \<^verbatim>\<open>running\<close> and schedules a slice. When the loop condition of that slice holds
  at its first check and the path can be printed, the slice calls the engine at least
  once. If that first step exhausts the search without a solution and the loop condition
  holds once more, the slice has called the engine exactly once and returns false: nothing
  is posted, no handle is left, and the inferred state is \<^verbatim>\<open>done\<close> with the counters as
  that step left them.
\<close>

theorem exhausted_program:
  fixes E :: "('cp, 'p, 'db, 'n, 'd) Env" and s :: "('p, 'db, 'n, 'd) Worker"
  assumes "makeInitialDb E cp = Inr db"
  shows "\<exists>s1 s2 h. onmessage E (A_load cp) s = Some s1 \<and>
     last (outbox s1) = W_paused \<lparr>cycles = 0, deadEnds = 0\<rparr> \<and> tree s1 = Some (leaf db) \<and>
     inferState s1 = S_paused \<and> stats s1 = \<lparr>cycles = 0, deadEnds = 0\<rparr> \<and>
     onmessage E A_start s1 = Some s2 \<and> last (outbox s2) = W_running \<lparr>cycles = 0, deadEnds = 0\<rparr> \<and>
     liveLoopHandle s2 = Some h \<and> h \<in> set (timers s2) \<and> calls s2 = calls s \<and>
     (\<forall>n line s3.
        0 \<le> Math_random E (draws s) \<and>
        performance_now E (Suc (ticks s)) < js_add (performance_now E (ticks s)) TIME_LIMIT \<and>
        pathToString E (leaf db) [] = Inr line \<and> fire n E h s2 = Some s3 \<longrightarrow>
        calls s < calls s3) \<and>
     (\<forall>n line r c.
        0 \<le> Math_random E (draws s) \<and>
        performance_now E (Suc (ticks s)) < js_add (performance_now E (ticks s)) TIME_LIMIT \<and>
        performance_now E (Suc (Suc (ticks s))) < js_add (performance_now E (ticks s)) TIME_LIMIT \<and>
        pathToString E (leaf db) [] = Inr line \<and>
        stepTreeRandomDFS E (Some (program_of E cp)) (leaf db) [] \<lparr>cycles = 0, deadEnds = 0\<rparr> (calls s) =
          (Inr r, c) \<and>
        r_tree r = None \<and> r_solution r = None \<and>
        real_of_int (cycles c) <
          js_add (js_add 0 CYCLE_LIMIT) (js_mul (Math_random E (draws s)) CYCLE_LIMIT) \<longrightarrow>
        (\<exists>s3. fire (Suc (Suc n)) E h s2 = Some s3 \<and> calls s3 = Suc (calls s) \<and> stats s3 = c \<and>
           tree s3 = None \<and> liveLoopHandle s3 = None \<and> outbox s3 = outbox s2 \<and>
           inferState s3 = S_done))"
proof -
  let ?s1 = "(pause s)\<lparr>stats := zeroStats, path := [], program := Some (program_of E cp),
               queuedFacts := None, queuedError := None, tree := Some (leaf db),
               outbox := outbox s @ [W_paused zeroStats]\<rparr>"
  let ?h = "nextHandle s"
  let ?s2 = "?s1\<lparr>timers := timers (pause s) @ [?h], nextHandle := Suc ?h,
               liveLoopHandle := Some ?h, outbox := outbox s @ [W_paused zeroStats, W_running zeroStats]\<rparr>"
  have l: "onmessage E (A_load cp) s = Some ?s1"
    by (rule load_succeeds [OF assms])
  have idle: "liveLoopHandle ?s1 = None"
    by simp
  have st: "onmessage E A_start ?s1 = Some ?s2"
    by (simp add: onmessage_def pause_idle [OF idle] inferState_iff resume_def post_def setTimeout_def)
  let ?c = "clearTimeout ?h ?s2"
  have once: "calls s < calls s3"
    if "0 \<le> Math_random E (draws s)"
      "performance_now E (Suc (ticks s)) < js_add (performance_now E (ticks s)) TIME_LIMIT"
      "pathToString E (leaf db) [] = Inr line" "fire n E ?h ?s2 = Some s3"
    for n line s3
  proof -
    from that(4) obtain x t where r: "cycle_run n E ?c = Some (x, t)" and c: "calls s3 = calls t"
      by (auto simp: fire_def liveLoop_def cycle_def setTimeout_def split: option.splits prod.splits bool.splits)
    from r obtain m where n: "n = Suc m"
      by (cases n) (simp_all add: cycle_run_def)
    from that(1) have "0 < js_add (js_add 0 CYCLE_LIMIT) (js_mul (Math_random E (draws s)) CYCLE_LIMIT)"
      by (rule quota_positive)
    with r that(2,3) have "Suc (calls s) \<le> calls t"
      unfolding n cycle_run_def cycle_limit_def cycle_start_def
      by (auto simp: Let_def clearTimeout_def zeroStats_def
          split: prod.splits sum.splits option.splits dest!: cycle_loop_calls)
    with c show ?thesis
      by simp
  qed
  have one: "\<exists>s3. fire (Suc (Suc n)) E ?h ?s2 = Some s3 \<and> calls s3 = Suc (calls s) \<and> stats s3 = c \<and>
           tree s3 = None \<and> liveLoopHandle s3 = None \<and> outbox s3 = outbox ?s2 \<and>
           inferState s3 = S_done"
    if "0 \<le> Math_random E (draws s)"
      "performance_now E (Suc (ticks s)) < js_add (performance_now E (ticks s)) TIME_LIMIT"
      "performance_now E (Suc (Suc (ticks s))) < js_add (performance_now E (ticks s)) TIME_LIMIT"
      "pathToString E (leaf db) [] = Inr line"
      "stepTreeRandomDFS E (Some (program_of E cp)) (leaf db) [] \<lparr>cycles = 0, deadEnds = 0\<rparr> (calls s) =
          (Inr r, c)"
      "r_tree r = None" "r_solution r = None"
      "real_of_int (cycles c) <
          js_add (js_add 0 CYCLE_LIMIT) (js_mul (Math_random E (draws s)) CYCLE_LIMIT)"
    for n line r c
  proof -
    from that(1) have "0 < js_add (js_add 0 CYCLE_LIMIT) (js_mul (Math_random E (draws s)) CYCLE_LIMIT)"
      by (rule quota_positive)
    with that show ?thesis
      by (simp add: fire_def liveLoop_def cycle_def cycle_run_def cycle_limit_def cycle_start_def
          clearTimeout_def zeroStats_def Let_def inferState_iff)
  qed
  have "last (outbox ?s1) = W_paused \<lparr>cycles = 0, deadEnds = 0\<rparr>" "tree ?s1 = Some (leaf db)"
    "inferState ?s1 = S_paused" "stats ?s1 = \<lparr>cycles = 0, deadEnds = 0\<rparr>"
    "last (outbox ?s2) = W_running \<lparr>cycles = 0, deadEnds = 0\<rparr>"
    "liveLoopHandle ?s2 = Some ?h" "?h \<in> set (timers ?s2)" "calls ?s2 = calls s"
    by (simp_all add: zeroStats_def inferState_iff)
  with l st once one show ?thesis
    by blast
qed

theorem exhausted_program_witness:
  "makeInitialDb toyEnv 0 = Inr 0 \<and> 0 \<le> Math_random toyEnv (draws fresh) \<and>
   performance_now toyEnv (Suc (ticks fresh)) <
       js_add (performance_now toyEnv (ticks fresh)) TIME_LIMIT \<and>
   performance_now toyEnv (Suc (Suc (ticks fresh))) <
       js_add (performance_now toyEnv (ticks fresh)) TIME_LIMIT \<and>
   pathToString toyEnv (leaf 0) [] = Inr ''path'' \<and>
   stepTreeRandomDFS toyEnv (Some (program_of toyEnv 0)) (leaf 0) [] \<lparr>cycles = 0, deadEnds = 0\<rparr> (calls fresh) =
     (Inr \<lparr>r_tree = None, r_path = [], r_solution = None\<rparr>, \<lparr>cycles = 1, deadEnds = 1\<rparr>) \<and>
   (\<exists>s3. fire (Suc (Suc 0)) toyEnv 0 started0 = Some s3 \<and> calls s3 = Suc (calls fresh) \<and>
      stats s3 = \<lparr>cycles = 1, deadEnds = 1\<rparr> \<and> tree s3 = None \<and> liveLoopHandle s3 = None \<and>
      outbox s3 = outbox started0 \<and> inferState s3 = S_done)"
proof -
  let ?r = "\<lparr>r_tree = None, r_path = [], r_solution = None\<rparr> :: (nat, nat, nat) StepResult"
  let ?c = "\<lparr>cycles = 1, deadEnds = 1\<rparr>"
  have h: "makeInitialDb toyEnv 0 = Inr 0"
    by (simp add: toyEnv_def)
  have p: "0 \<le> Math_random toyEnv (draws fresh) \<and>
      performance_now toyEnv (Suc (ticks fresh)) <
       js_add (performance_now toyEnv (ticks fresh)) TIME_LIMIT \<and>
      performance_now toyEnv (Suc (Suc (ticks fresh))) <
       js_add (performance_now toyEnv (ticks fresh)) TIME_LIMIT \<and>
      pathToString toyEnv (leaf 0) [] = Inr ''path'' \<and>
      stepTreeRandomDFS toyEnv (Some (program_of toyEnv 0)) (leaf 0) [] \<lparr>cycles = 0, deadEnds = 0\<rparr> (calls fresh) =
        (Inr ?r, ?c) \<and>
      r_tree ?r = None \<and> r_solution ?r = None \<and>
      real_of_int (cycles ?c) <
        js_add (js_add 0 CYCLE_LIMIT) (js_mul (Math_random toyEnv (draws fresh)) CYCLE_LIMIT)"
    by (simp add: toyEnv_def toyStep_def fresh_def initial_def TIME_LIMIT_def CYCLE_LIMIT_def
        js_add_def js_mul_def)
  from exhausted_program [OF h, of fresh]
  have "\<exists>s3. fire (Suc (Suc 0)) toyEnv 0 started0 = Some s3 \<and> calls s3 = Suc (calls fresh) \<and>
      stats s3 = ?c \<and> tree s3 = None \<and> liveLoopHandle s3 = None \<and>
      outbox s3 = outbox started0 \<and> inferState s3 = S_done"
  proof (elim exE conjE)
    fix s1 s2 k
    assume a: "onmessage toyEnv (A_load 0) fresh = Some s1" "onmessage toyEnv A_start s1 = Some s2"
      "liveLoopHandle s2 = Some k"
    assume b: "\<forall>n line r c.
        0 \<le> Math_random toyEnv (draws fresh) \<and>
        performance_now toyEnv (Suc (ticks fresh)) <
       js_add (performance_now toyEnv (ticks fresh)) TIME_LIMIT \<and>
        performance_now toyEnv (Suc (Suc (ticks fresh))) <
       js_add (performance_now toyEnv (ticks fresh)) TIME_LIMIT \<and>
        pathToString toyEnv (leaf 0) [] = Inr line \<and>
        stepTreeRandomDFS toyEnv (Some (program_of toyEnv 0)) (leaf 0) [] \<lparr>cycles = 0, deadEnds = 0\<rparr> (calls fresh) =
          (Inr r, c) \<and>
        r_tree r = None \<and> r_solution r = None \<and>
        real_of_int (cycles c) <
          js_add (js_add 0 CYCLE_LIMIT) (js_mul (Math_random toyEnv (draws fresh)) CYCLE_LIMIT) \<longrightarrow>
        (\<exists>s3. fire (Suc (Suc n)) toyEnv k s2 = Some s3 \<and> calls s3 = Suc (calls fresh) \<and> stats s3 = c \<and>
           tree s3 = None \<and> liveLoopHandle s3 = None \<and> outbox s3 = outbox s2 \<and>
           inferState s3 = S_done)"
    from a(1) toy0_load have "s1 = loaded0"
      by (simp add: fresh_def)
    with a(2) toy0_start have s2: "s2 = started0"
      by simp
    with a(3) have "k = 0"
      by (simp add: started0_def)
    note s = s2 this
    from b [rule_format, OF p, of 0] show ?thesis
      unfolding s .
  qed
  with h p show ?thesis
    by (intro conjI) (elim conjE, assumption)+
qed

end
